theory Spec2Isabelle
  imports Complex_Main
begin

section \<open>The rollout collector of the off-policy base class\<close>

text \<open>
  A shallow embedding of \<^verbatim>\<open>torchy_baselines/common/base_class.py\<close>: the action
  transform of \<^verbatim>\<open>BaseRLModel\<close> and \<^verbatim>\<open>OffPolicyRLModel.collect_rollouts\<close>.

  Arrays of numbers are lists. The collector computes on \<open>real\<close>: the rounding of
  numpy's and torch's floating point is not modelled, and neither are \<open>inf\<close> and
  \<open>nan\<close> (a division by zero in \<open>scale_action\<close> is HOL's \<open>x / 0 = 0\<close>, so the
  statements about it assume \<open>low < high\<close>). The return recursion is written over any
  type with \<open>0\<close>, \<open>1\<close>, \<open>+\<close>, \<open>-\<close> and \<open>*\<close>: what is proved about it uses no law of
  arithmetic.
\<close>

subsection \<open>Action transform\<close>

text \<open>
  \<^verbatim>\<open>scale_action\<close> and \<^verbatim>\<open>unscale_action\<close> read \<open>low\<close> and \<open>high\<close> from
  \<^verbatim>\<open>self.action_space\<close>; here they are arguments. The operations are numpy's
  elementwise ones, on arrays of one shape.
\<close>

definition scale_action :: "real list \<Rightarrow> real list \<Rightarrow> real list \<Rightarrow> real list" where
  "scale_action low high action =
     map (\<lambda>(a, l, h). 2 * ((a - l) / (h - l)) - 1) (zip action (zip low high))"

definition unscale_action :: "real list \<Rightarrow> real list \<Rightarrow> real list \<Rightarrow> real list" where
  "unscale_action low high scaled_action =
     map (\<lambda>(n, l, h). l + (0.5 * (n + 1) * (h - l))) (zip scaled_action (zip low high))"

text \<open>\<^verbatim>\<open>np.clip(a, a_min, a_max)\<close> is \<open>minimum(a_max, maximum(a, a_min))\<close>.\<close>

definition clip :: "real list \<Rightarrow> real \<Rightarrow> real \<Rightarrow> real list" where
  "clip a a_min a_max = map (\<lambda>x. min a_max (max x a_min)) a"


subsection \<open>Data of a rollout\<close>

text \<open>
  The observation type \<open>'o\<close> and the state \<open>'e\<close> of the environment are left open.
  \<^verbatim>\<open>collect_rollouts\<close> asserts \<^verbatim>\<open>env.num_envs == 1\<close>, so the arrays that
  \<^verbatim>\<open>env.step\<close> returns have one entry: the reward is one number, \<open>done\<close> one
  boolean, \<open>infos\<close> one dictionary, and an action is the vector of the single
  environment.
\<close>

datatype error = AssertionError | UnboundLocalError | ZeroDivisionError | IndexError | RuntimeError

text \<open>What \<^verbatim>\<open>callback()\<close> returns; the source tests \<^verbatim>\<open>callback() is False\<close>.\<close>

datatype cb_result = CbFalse | CbTrue | CbNone

text \<open>The two keys of an \<open>info\<close> dictionary that \<^verbatim>\<open>_update_info_buffer\<close> reads:
  \<open>'episode'\<close> (its \<open>'r'\<close> and \<open>'l'\<close>) and \<open>'is_success'\<close>.\<close>

record info =
  episode :: "(real \<times> int) option"
  is_success :: "bool option"

text \<open>One call of \<^verbatim>\<open>replay_buffer.add(obs_, new_obs_, clipped_action, reward_, done)\<close>.\<close>

record 'o transition =
  t_obs :: 'o
  t_next_obs :: 'o
  t_action :: "real list"
  t_reward :: real
  t_done :: bool

text \<open>
  \<^verbatim>\<open>self.rollout_data\<close>: a dictionary of five lists, to which the post-processing adds
  the keys \<open>'returns'\<close> and \<open>'advantage'\<close> (\<open>None\<close> here while the key is absent).
  The key \<open>'values'\<close> is the field \<open>rd_values\<close> (\<open>values\<close> is a keyword of Isabelle).
\<close>

record ('o, 'a) rollout_data =
  observations :: "'o list"
  actions :: "'a list list"
  rewards :: "'a list"
  dones :: "bool list"
  rd_values :: "'a list"
  returns :: "'a list option"
  advantage :: "'a list option"

text \<open>The calls made on the collaborators, in the order they are made.\<close>

datatype 'o event =
    OnRolloutStart
  | OnRolloutEnd
  | Callback cb_result
  | ResetNoise
  | ActionSpaceSample
  | Predict 'o bool
  | ActionNoiseCall
  | ActionNoiseReset
  | EnvStep "real list"
  | VfNet 'o
  | LogDump int

text \<open>\<^verbatim>\<open>self._vec_normalize_env\<close>, when it is not \<open>None\<close>: the two views it gives of the
  environment's last step.\<close>

record ('o, 'e) vec_normalize =
  get_original_obs :: "'e \<Rightarrow> 'o"
  get_original_reward :: "'e \<Rightarrow> real"

text \<open>
  Everything that is fixed during one call: the arguments of \<^verbatim>\<open>collect_rollouts\<close>, the
  attributes of \<open>self\<close> it reads (those it also writes are given by their value at
  the call), and the collaborators. The environment is a state machine. The callback,
  \<^verbatim>\<open>action_space.sample()\<close>, \<^verbatim>\<open>predict\<close> and the action noise have hidden state
  (random generators, the policy's noise matrix); their answers are given per step of
  the rollout, numbered by \<open>total_steps\<close>.
\<close>

record ('o, 'e) setting =
  n_episodes :: int
  n_steps :: int
  action_noise :: "(int \<Rightarrow> real list) option"
  learning_starts :: int
  replay_buffer :: "'o transition list option"
  obs :: 'o
  episode_num :: int
  log_interval :: "int option"
  use_sde :: bool
  sde_sample_freq :: int
  use_sde_at_warmup :: bool
  on_policy_exploration :: bool
  vec_normalize_env :: "('o, 'e) vec_normalize option"
  verbose :: int
  gamma :: real
  low :: "real list"
  high :: "real list"
  num_timesteps :: int
  ep_info_buffer :: "(real \<times> int) list"
  ep_success_buffer :: "bool list"
  num_envs :: int
  env :: 'e
  env_step :: "'e \<Rightarrow> real list \<Rightarrow> 'e \<times> 'o \<times> real \<times> bool \<times> info"
  callback :: "int \<Rightarrow> cb_result"
  action_space_sample :: "int \<Rightarrow> real list"
  predict :: "int \<Rightarrow> 'o \<Rightarrow> bool \<Rightarrow> real list"
  vf_net :: "'o \<Rightarrow> real"

text \<open>
  The local variables of \<^verbatim>\<open>collect_rollouts\<close> and the attributes of \<open>self\<close> it
  writes. \<open>cur_obs_u\<close> is the local \<^verbatim>\<open>obs_\<close>, \<open>None\<close> while it is unbound.
\<close>

record ('o, 'e) state =
  cur_env :: 'e
  cur_obs :: 'o
  cur_obs_u :: "'o option"
  cur_done :: bool
  cur_num_timesteps :: int
  total_steps :: int
  total_episodes :: int
  episode_reward :: real
  episode_timesteps :: int
  episode_rewards :: "real list"
  total_timesteps :: "int list"
  rollout :: "('o, real) rollout_data option"
  buffer :: "'o transition list option"
  info_buffer :: "(real \<times> int) list"
  success_buffer :: "bool list"
  trace :: "'o event list"

subsection \<open>Rollout start\<close>

definition log_event :: "'o event \<Rightarrow> ('o, 'e) state \<Rightarrow> ('o, 'e) state" where
  "log_event ev s = s\<lparr>trace := trace s @ [ev]\<rparr>"

definition empty_rollout_data :: "('o, 'a) rollout_data" where
  "empty_rollout_data =
     \<lparr>observations = [], actions = [], rewards = [], dones = [], rd_values = [],
      returns = None, advantage = None\<rparr>"

text \<open>
  The lines before the outer loop: the counters at zero, the assertion on
  \<^verbatim>\<open>env.num_envs\<close>, \<^verbatim>\<open>obs_\<close> bound only under a normalization wrapper,
  \<^verbatim>\<open>rollout_data\<close> reset, the noise reset under \<^verbatim>\<open>use_sde\<close>, and
  \<^verbatim>\<open>callback.on_rollout_start()\<close>. (\<^verbatim>\<open>isinstance(env, VecEnv)\<close> is the type of
  \<open>env_step\<close>.) The local \<open>done\<close> is unbound before the first step; it is read only
  after one.
\<close>

definition rollout_start :: "('o, 'e) setting \<Rightarrow> error + ('o, 'e) state" where
  "rollout_start w =
     (if num_envs w \<noteq> 1 then Inl AssertionError
      else Inr
        \<lparr>cur_env = env w,
         cur_obs = obs w,
         cur_obs_u = (case vec_normalize_env w of None \<Rightarrow> None
                      | Some vn \<Rightarrow> Some (get_original_obs vn (env w))),
         cur_done = False,
         cur_num_timesteps = num_timesteps w,
         total_steps = 0,
         total_episodes = 0,
         episode_reward = 0,
         episode_timesteps = 0,
         episode_rewards = [],
         total_timesteps = [],
         rollout = (if use_sde w \<and> on_policy_exploration w then Some empty_rollout_data else None),
         buffer = replay_buffer w,
         info_buffer = ep_info_buffer w,
         success_buffer = ep_success_buffer w,
         trace = (if use_sde w then [ResetNoise] else []) @ [OnRolloutStart]\<rparr>)"

subsection \<open>One step of the inner loop\<close>

text \<open>The first lines of an outer iteration.\<close>

definition begin_episode :: "('o, 'e) state \<Rightarrow> ('o, 'e) state" where
  "begin_episode s = s\<lparr>cur_done := False, episode_reward := 0, episode_timesteps := 0\<rparr>"

text \<open>The test that guards \<^verbatim>\<open>self.actor.reset_noise()\<close> inside the loop. Python's
  \<open>%\<close> with a positive divisor is \<open>mod\<close> on \<open>int\<close>.\<close>

definition resample_noise :: "('o, 'e) setting \<Rightarrow> bool" where
  "resample_noise w \<longleftrightarrow> use_sde w \<and> sde_sample_freq w > 0 \<and> n_steps w mod sde_sample_freq w = 0"

definition warmup :: "('o, 'e) setting \<Rightarrow> ('o, 'e) state \<Rightarrow> bool" where
  "warmup w s \<longleftrightarrow> cur_num_timesteps s < learning_starts w \<and> \<not> (use_sde w \<and> use_sde_at_warmup w)"

definition unscaled_action :: "('o, 'e) setting \<Rightarrow> ('o, 'e) state \<Rightarrow> real list" where
  "unscaled_action w s =
     (if warmup w s then action_space_sample w (total_steps s)
      else predict w (total_steps s) (cur_obs s) (\<not> use_sde w))"

definition scaled_action :: "('o, 'e) setting \<Rightarrow> ('o, 'e) state \<Rightarrow> real list" where
  "scaled_action w s = scale_action (low w) (high w) (unscaled_action w s)"

definition clipped_action :: "('o, 'e) setting \<Rightarrow> ('o, 'e) state \<Rightarrow> real list" where
  "clipped_action w s =
     (let clipped = (if use_sde w then clip (scaled_action w s) (- 1) 1 else scaled_action w s)
      in case action_noise w of
           None \<Rightarrow> clipped
         | Some noise \<Rightarrow> clip (map2 (+) clipped (noise (total_steps s))) (- 1) 1)"

text \<open>The calls on the policy, the action space and the noise that choose the action.\<close>

definition action_events :: "('o, 'e) setting \<Rightarrow> ('o, 'e) state \<Rightarrow> 'o event list" where
  "action_events w s =
     (if resample_noise w then [ResetNoise] else [])
     @ [if warmup w s then ActionSpaceSample else Predict (cur_obs s) (\<not> use_sde w)]
     @ (case action_noise w of None \<Rightarrow> [] | Some noise \<Rightarrow> [ActionNoiseCall])"

text \<open>\<^verbatim>\<open>deque(maxlen=100)\<close>: appending to a full deque drops its oldest entry.\<close>

definition deque_append :: "'a list \<Rightarrow> 'a \<Rightarrow> 'a list" where
  "deque_append d x = (let d' = d @ [x] in drop (length d' - 100) d')"

definition update_info_buffer :: "info \<Rightarrow> bool \<Rightarrow> ('o, 'e) state \<Rightarrow> ('o, 'e) state" where
  "update_info_buffer i d s =
     (let s1 = (case episode i of None \<Rightarrow> s
                | Some ep \<Rightarrow> s\<lparr>info_buffer := deque_append (info_buffer s) ep\<rparr>)
      in case is_success i of
           None \<Rightarrow> s1
         | Some b \<Rightarrow> if d then s1\<lparr>success_buffer := deque_append (success_buffer s1) b\<rparr> else s1)"

text \<open>
  \<open>store_transition\<close> is the block under \<^verbatim>\<open>if replay_buffer is not None\<close>. It gives
  the buffer after the call of \<open>add\<close> and the local \<^verbatim>\<open>new_obs_\<close>, which that block
  alone binds. \<open>e'\<close> is the environment after the step.
\<close>

definition store_transition ::
  "('o, 'e) setting \<Rightarrow> ('o, 'e) state \<Rightarrow> 'e \<Rightarrow> 'o \<Rightarrow> real \<Rightarrow> bool \<Rightarrow>
     error + ('o transition list option \<times> 'o option)" where
  "store_transition w s e' new_obs reward d =
     (case buffer s of
        None \<Rightarrow> Inr (None, None)
      | Some b \<Rightarrow>
          (case vec_normalize_env w of
             Some vn \<Rightarrow>
               (case cur_obs_u s of
                  None \<Rightarrow> Inl UnboundLocalError
                | Some o_u \<Rightarrow>
                    Inr (Some (b @ [\<lparr>t_obs = o_u, t_next_obs = get_original_obs vn e',
                                     t_action = clipped_action w s,
                                     t_reward = get_original_reward vn e', t_done = d\<rparr>]),
                         Some (get_original_obs vn e')))
           | None \<Rightarrow>
               Inr (Some (b @ [\<lparr>t_obs = cur_obs s, t_next_obs = new_obs,
                                t_action = clipped_action w s,
                                t_reward = reward, t_done = d\<rparr>]),
                    Some new_obs)))"

text \<open>The block under \<^verbatim>\<open>if self.rollout_data is not None\<close>.\<close>

definition append_rollout_data ::
  "('o, 'e) setting \<Rightarrow> ('o, 'e) state \<Rightarrow> real \<Rightarrow> bool \<Rightarrow> ('o, real) rollout_data option" where
  "append_rollout_data w s reward d =
     (case rollout s of
        None \<Rightarrow> None
      | Some rd \<Rightarrow>
          Some (rd\<lparr>observations := observations rd @ [cur_obs s],
                   actions := actions rd @ [scaled_action w s],
                   rewards := rewards rd @ [reward],
                   dones := dones rd @ [d],
                   rd_values := rd_values rd @ [vf_net w (cur_obs s)]\<rparr>))"

text \<open>
  The body of the inner loop after the callback: from the noise resampling to
  \<^verbatim>\<open>total_steps += 1\<close>. Under a normalization wrapper \<^verbatim>\<open>obs_ = new_obs_\<close> reads
  \<^verbatim>\<open>new_obs_\<close>, which is unbound when no replay buffer was given.
\<close>

definition step_body :: "('o, 'e) setting \<Rightarrow> ('o, 'e) state \<Rightarrow> error + ('o, 'e) state" where
  "step_body w s =
     (let a = unscale_action (low w) (high w) (clipped_action w s)
      in case env_step w (cur_env s) a of
           (e', new_obs, reward, d, infos) \<Rightarrow>
             (case store_transition w s e' new_obs reward d of
                Inl err \<Rightarrow> Inl err
              | Inr (buf, new_obs_u) \<Rightarrow>
                  if vec_normalize_env w \<noteq> None \<and> new_obs_u = None then Inl UnboundLocalError
                  else Inr (update_info_buffer infos d s
                     \<lparr>cur_env := e',
                      cur_obs := new_obs,
                      cur_obs_u := (if vec_normalize_env w \<noteq> None then new_obs_u
                                    else if buffer s \<noteq> None then Some (cur_obs s)
                                    else cur_obs_u s),
                      cur_done := d,
                      cur_num_timesteps := cur_num_timesteps s + 1,
                      total_steps := total_steps s + 1,
                      episode_reward := episode_reward s + reward,
                      episode_timesteps := episode_timesteps s + 1,
                      rollout := append_rollout_data w s reward d,
                      buffer := buf,
                      trace := trace s @ action_events w s @ [EnvStep a]
                               @ (if rollout s \<noteq> None then [VfNet (cur_obs s)] else [])\<rparr>)))"

subsection \<open>Episode boundary\<close>

text \<open>
  The block under \<^verbatim>\<open>if done:\<close> after the inner loop. The logger's lines are one
  event; the wall-clock time they read is not modelled. Python's \<open>%\<close> raises on a
  zero divisor and has the sign of the divisor otherwise, as \<open>mod\<close> on \<open>int\<close>.
\<close>

definition episode_end :: "('o, 'e) setting \<Rightarrow> ('o, 'e) state \<Rightarrow> error + ('o, 'e) state" where
  "episode_end w s =
     (let s1 = s\<lparr>total_episodes := total_episodes s + 1,
                 episode_rewards := episode_rewards s @ [episode_reward s],
                 total_timesteps := total_timesteps s @ [episode_timesteps s],
                 trace := trace s @ (case action_noise w of None \<Rightarrow> []
                                     | Some noise \<Rightarrow> [ActionNoiseReset])\<rparr>
      in if verbose w \<ge> 1 then
           (case log_interval w of
              None \<Rightarrow> Inr s1
            | Some li \<Rightarrow>
                if li = 0 then Inl ZeroDivisionError
                else if (episode_num w + total_episodes s1) mod li = 0
                  then Inr (log_event (LogDump (episode_num w + total_episodes s1)) s1)
                  else Inr s1)
         else Inr s1)"

subsection \<open>Return and advantage\<close>

text \<open>
  The loop \<^verbatim>\<open>for step in reversed(range(len(rewards)))\<close>: \<open>backward_returns\<close> with
  first argument \<open>k\<close> runs the iterations \<open>step = k - 1, \<dots>, 0\<close>, carrying
  \<^verbatim>\<open>last_return\<close> and the tensor \<^verbatim>\<open>returns\<close>. \<open>ds\<close> is the tensor of the dones
  (\<open>0\<close> or \<open>1\<close>); reading it out of range raises.
\<close>

fun backward_returns ::
  "nat \<Rightarrow> 'a::{zero_neq_one,plus,minus,times} \<Rightarrow> 'a \<Rightarrow> 'a \<Rightarrow> 'a list \<Rightarrow> 'a list \<Rightarrow>
     'a \<Rightarrow> 'a list \<Rightarrow> error + 'a list" where
  "backward_returns 0 g next_non_terminal next_value rs ds last_return rets = Inr rets"
| "backward_returns (Suc step) g next_non_terminal next_value rs ds last_return rets =
     (if step = length rs - 1 then
        (let last_return' = rs ! step + next_non_terminal * next_value
         in backward_returns step g next_non_terminal next_value rs ds last_return'
              (rets[step := last_return']))
      else if step + 1 < length ds then
        (let last_return' = rs ! step + g * last_return * (1 - ds ! (step + 1))
         in backward_returns step g next_non_terminal next_value rs ds last_return'
              (rets[step := last_return']))
      else Inl IndexError)"

text \<open>\<^verbatim>\<open>returns - values\<close> on two tensors of one dimension: elementwise, a tensor of
  one entry is broadcast, other shapes raise.\<close>

definition tensor_sub :: "'a::minus list \<Rightarrow> 'a list \<Rightarrow> error + 'a list" where
  "tensor_sub xs ys =
     (if length xs = length ys then Inr (map2 (-) xs ys)
      else if length ys = 1 then Inr (map (\<lambda>x. x - hd ys) xs)
      else if length xs = 1 then Inr (map (\<lambda>y. hd xs - y) ys)
      else Inl RuntimeError)"

text \<open>
  The post-processing of \<^verbatim>\<open>rollout_data\<close>. \<open>d\<close> is the local \<^verbatim>\<open>done[0]\<close> left by
  the last step and \<open>next_value\<close> the value network on the last observation; both are
  read at the last index only.
\<close>

definition post_processing ::
  "'a::{zero_neq_one,plus,minus,times} \<Rightarrow> bool \<Rightarrow> 'a \<Rightarrow> ('o, 'a) rollout_data \<Rightarrow>
     error + ('o, 'a) rollout_data" where
  "post_processing g d next_value rd =
     (case backward_returns (length (rewards rd)) g (1 - of_bool d) next_value
             (rewards rd) (map of_bool (dones rd)) 0 (rewards rd) of
        Inl err \<Rightarrow> Inl err
      | Inr rets \<Rightarrow>
          (case tensor_sub rets (rd_values rd) of
             Inl err \<Rightarrow> Inl err
           | Inr adv \<Rightarrow> Inr (rd\<lparr>returns := Some rets, advantage := Some adv\<rparr>)))"

subsection \<open>Rollout end and the two loops\<close>

type_synonym 'o rollout_result = "real \<times> int \<times> int \<times> 'o option \<times> bool"

text \<open>The lines after the outer loop. \<^verbatim>\<open>np.mean\<close> is the sum over the length.\<close>

definition rollout_end ::
  "('o, 'e) setting \<Rightarrow> ('o, 'e) state \<Rightarrow> error + ('o rollout_result \<times> ('o, 'e) state)" where
  "rollout_end w s =
     (let mean_reward = (if total_episodes s > 0
                         then sum_list (episode_rewards s) / real (length (episode_rewards s))
                         else 0);
          res = (mean_reward, total_steps s, total_episodes s, Some (cur_obs s), True)
      in case rollout s of
           None \<Rightarrow> Inr (res, log_event OnRolloutEnd s)
         | Some rd \<Rightarrow>
             (case post_processing (gamma w) (cur_done s) (vf_net w (cur_obs s)) rd of
                Inl err \<Rightarrow> Inl err
              | Inr rd' \<Rightarrow>
                  Inr (res, s\<lparr>rollout := Some rd',
                              trace := trace s
                                @ (if rewards rd = [] then [] else [VfNet (cur_obs s)])
                                @ [OnRolloutEnd]\<rparr>)))"

text \<open>The return under \<^verbatim>\<open>if callback() is False\<close>.\<close>

definition callback_stop :: "('o, 'e) state \<Rightarrow> 'o rollout_result \<times> ('o, 'e) state" where
  "callback_stop s =
     ((0, total_steps s, total_episodes s, None, False), log_event (Callback CbFalse) s)"

text \<open>
  \<open>outer\<close> is the head of \<^verbatim>\<open>while total_steps < n_steps or total_episodes < n_episodes\<close>
  and \<open>inner\<close> the head of \<^verbatim>\<open>while not done\<close>, entered with \<open>done = False\<close>. The
  environment may never end an episode, so both run on fuel, one unit per step of
  the environment: \<open>None\<close> is a call that has not returned within the fuel.
\<close>

fun outer :: "nat \<Rightarrow> ('o, 'e) setting \<Rightarrow> ('o, 'e) state \<Rightarrow>
                (error + ('o rollout_result \<times> ('o, 'e) state)) option"
  and inner :: "nat \<Rightarrow> ('o, 'e) setting \<Rightarrow> ('o, 'e) state \<Rightarrow>
                (error + ('o rollout_result \<times> ('o, 'e) state)) option" where
  "outer fuel w s =
     (if total_steps s < n_steps w \<or> total_episodes s < n_episodes w
      then inner fuel w (begin_episode s)
      else Some (rollout_end w s))"
| "inner 0 w s = None"
| "inner (Suc fuel) w s =
     (if callback w (total_steps s) = CbFalse then Some (Inr (callback_stop s))
      else case step_body w (log_event (Callback (callback w (total_steps s))) s) of
             Inl err \<Rightarrow> Some (Inl err)
           | Inr s' \<Rightarrow>
               if \<not> (0 < n_steps w \<and> n_steps w \<le> total_steps s') \<and> \<not> cur_done s'
               then inner fuel w s'
               else if cur_done s' then
                 (case episode_end w s' of
                    Inl err \<Rightarrow> Some (Inl err)
                  | Inr s'' \<Rightarrow> outer fuel w s'')
               else outer fuel w s')"

definition collect_rollouts ::
  "nat \<Rightarrow> ('o, 'e) setting \<Rightarrow> (error + ('o rollout_result \<times> ('o, 'e) state)) option" where
  "collect_rollouts fuel w =
     (case rollout_start w of
        Inl err \<Rightarrow> Some (Inl err)
      | Inr s \<Rightarrow> outer fuel w s)"

subsection \<open>Reading a trace\<close>

text \<open>The actions that \<^verbatim>\<open>env.step\<close> received, in order.\<close>

fun env_steps :: "'o event list \<Rightarrow> real list list" where
  "env_steps [] = []"
| "env_steps (EnvStep a # tr) = a # env_steps tr"
| "env_steps (ev # tr) = env_steps tr"

text \<open>
  What holds at the head of both loops: no callback has returned \<open>False\<close>, the rollout
  has not ended, \<open>total_steps\<close> counts the calls of \<^verbatim>\<open>env.step\<close>, and the snapshot
  has no returns yet.
\<close>

definition run_inv :: "('o, 'e) setting \<Rightarrow> ('o, 'e) state \<Rightarrow> bool" where
  "run_inv w s \<longleftrightarrow>
     Callback CbFalse \<notin> set (trace s) \<and> OnRolloutEnd \<notin> set (trace s)
     \<and> int (length (env_steps (trace s))) = total_steps s
     \<and> (\<forall>k. 0 \<le> k \<and> k < total_steps s \<longrightarrow> callback w k \<noteq> CbFalse)
     \<and> (\<forall>rd. rollout s = Some rd \<longrightarrow> returns rd = None \<and> advantage rd = None)"

text \<open>The calls that choose the action of a step: on the action space or on the policy.\<close>

fun action_queries :: "'o event list \<Rightarrow> 'o event list" where
  "action_queries [] = []"
| "action_queries (ActionSpaceSample # tr) = ActionSpaceSample # action_queries tr"
| "action_queries (Predict ob d # tr) = Predict ob d # action_queries tr"
| "action_queries (ev # tr) = action_queries tr"

definition warmup_at :: "('o, 'e) setting \<Rightarrow> int \<Rightarrow> bool" where
  "warmup_at w k \<longleftrightarrow>
     num_timesteps w + k < learning_starts w \<and> \<not> (use_sde w \<and> use_sde_at_warmup w)"

text \<open>
  At the loop heads the global step count is its value at the call plus
  \<open>total_steps\<close>, and the query of step \<open>k\<close> is the one the warm-up test selects.
\<close>

definition query_inv :: "('o, 'e) setting \<Rightarrow> ('o, 'e) state \<Rightarrow> bool" where
  "query_inv w s \<longleftrightarrow>
     cur_num_timesteps s = num_timesteps w + total_steps s
     \<and> int (length (action_queries (trace s))) = total_steps s
     \<and> (\<forall>k < length (action_queries (trace s)).
           if warmup_at w (int k)
           then action_queries (trace s) ! k = ActionSpaceSample
           else \<exists>ob. action_queries (trace s) ! k = Predict ob (\<not> use_sde w))"

text \<open>The action that step \<open>k\<close> asks for at observation \<open>ob\<close>, before scaling.\<close>

definition raw_action :: "('o, 'e) setting \<Rightarrow> int \<Rightarrow> 'o \<Rightarrow> real list" where
  "raw_action w k ob =
     (if warmup_at w k then action_space_sample w k else predict w k ob (\<not> use_sde w))"

text \<open>
  At the loop heads the buffer holds the normalized actions whose unscaling the
  environment received, and the snapshot the scaled raw actions.
\<close>

definition action_inv :: "('o, 'e) setting \<Rightarrow> ('o, 'e) state \<Rightarrow> bool" where
  "action_inv w s \<longleftrightarrow>
     cur_num_timesteps s = num_timesteps w + total_steps s
     \<and> (case replay_buffer w of
           None \<Rightarrow> buffer s = None
         | Some b0 \<Rightarrow>
             (\<exists>added. buffer s = Some (b0 @ added)
                \<and> map (\<lambda>t. unscale_action (low w) (high w) (t_action t)) added
                    = env_steps (trace s)
                \<and> (use_sde w \<or> action_noise w \<noteq> None \<longrightarrow>
                     (\<forall>t \<in> set added. \<forall>x \<in> set (t_action t). - 1 \<le> x \<and> x \<le> 1))))
     \<and> (\<forall>rd. rollout s = Some rd \<longrightarrow>
           length (observations rd) = length (actions rd)
           \<and> int (length (actions rd)) = total_steps s
           \<and> (\<forall>k < length (actions rd).
                 actions rd ! k
                   = scale_action (low w) (high w) (raw_action w (int k) (observations rd ! k))))"

subsection \<open>What the buffer adapter is asked to store\<close>

text \<open>
  Following the spec (4.4): the transitions of the environment from state \<open>e\<close> under
  the normalized actions \<open>as\<close>. Under a normalization wrapper a transition holds the
  wrapper's original observation before the step, its original observation after
  it and its original reward (\<open>original_transitions\<close>); without one, the raw
  observation \<open>ob\<close> before the step and the raw observation and reward that the step
  returned (\<open>raw_transitions\<close>). \<open>trajectory_end\<close> is where the environment is after
  the actions.
\<close>

fun trajectory_end :: "('o, 'e) setting \<Rightarrow> 'e \<Rightarrow> 'o \<Rightarrow> real list list \<Rightarrow> 'e \<times> 'o" where
  "trajectory_end w e ob [] = (e, ob)"
| "trajectory_end w e ob (a # as) =
     (case env_step w e (unscale_action (low w) (high w) a) of
        (e', new_obs, reward, d, infos) \<Rightarrow> trajectory_end w e' new_obs as)"

fun original_transitions ::
  "('o, 'e) setting \<Rightarrow> ('o, 'e) vec_normalize \<Rightarrow> 'e \<Rightarrow> real list list \<Rightarrow> 'o transition list" where
  "original_transitions w vn e [] = []"
| "original_transitions w vn e (a # as) =
     (case env_step w e (unscale_action (low w) (high w) a) of
        (e', new_obs, reward, d, infos) \<Rightarrow>
          \<lparr>t_obs = get_original_obs vn e, t_next_obs = get_original_obs vn e', t_action = a,
           t_reward = get_original_reward vn e', t_done = d\<rparr>
          # original_transitions w vn e' as)"

fun raw_transitions ::
  "('o, 'e) setting \<Rightarrow> 'e \<Rightarrow> 'o \<Rightarrow> real list list \<Rightarrow> 'o transition list" where
  "raw_transitions w e ob [] = []"
| "raw_transitions w e ob (a # as) =
     (case env_step w e (unscale_action (low w) (high w) a) of
        (e', new_obs, reward, d, infos) \<Rightarrow>
          \<lparr>t_obs = ob, t_next_obs = new_obs, t_action = a, t_reward = reward, t_done = d\<rparr>
          # raw_transitions w e' new_obs as)"

definition buffer_inv :: "('o, 'e) setting \<Rightarrow> ('o, 'e) state \<Rightarrow> bool" where
  "buffer_inv w s \<longleftrightarrow>
     (\<exists>acts. trajectory_end w (env w) (obs w) acts = (cur_env s, cur_obs s)
        \<and> int (length acts) = total_steps s
        \<and> map (unscale_action (low w) (high w)) acts = env_steps (trace s)
        \<and> (case vec_normalize_env w of None \<Rightarrow> True
            | Some vn \<Rightarrow> cur_obs_u s = Some (get_original_obs vn (cur_env s)))
        \<and> (case replay_buffer w of
              None \<Rightarrow> buffer s = None
            | Some b0 \<Rightarrow>
                (case vec_normalize_env w of
                   Some vn \<Rightarrow> buffer s = Some (b0 @ original_transitions w vn (env w) acts)
                 | None \<Rightarrow> buffer s = Some (b0 @ raw_transitions w (env w) (obs w) acts))))"

subsection \<open>Example rollouts\<close>

text \<open>
  An environment that counts its steps, shows the count as the observation, pays
  reward \<open>1\<close> per step and ends an episode at its third step. The policy answers
  \<open>[1/2]\<close> in a one-dimensional action space \<open>[-1, 1]\<close>; the budgets are two steps
  and one episode.
\<close>

definition base_setting :: "(nat, nat) setting" where
  "base_setting =
     \<lparr>n_episodes = 1, n_steps = 2, action_noise = None, learning_starts = 0,
      replay_buffer = Some [], obs = 0, episode_num = 0, log_interval = None,
      use_sde = False, sde_sample_freq = - 1, use_sde_at_warmup = False,
      on_policy_exploration = False, vec_normalize_env = None, verbose = 0, gamma = 1 / 2,
      low = [- 1], high = [1], num_timesteps = 0, ep_info_buffer = [], ep_success_buffer = [],
      num_envs = 1, env = 0,
      env_step = (\<lambda>e a. (Suc e, Suc e, 1, Suc e = 3, \<lparr>episode = None, is_success = None\<rparr>)),
      callback = (\<lambda>k. CbNone), action_space_sample = (\<lambda>k. [0]),
      predict = (\<lambda>k ob d. [1 / 2]), vf_net = (\<lambda>ob. real ob)\<rparr>"

definition base_final :: "(nat, nat) state" where
  "base_final =
     \<lparr>cur_env = 3, cur_obs = 3, cur_obs_u = Some 2, cur_done = True,
      cur_num_timesteps = 3, total_steps = 3, total_episodes = 1,
      episode_reward = 1, episode_timesteps = 1, episode_rewards = [1],
      total_timesteps = [1], rollout = None,
      buffer = Some
        [\<lparr>t_obs = 0, t_next_obs = 1, t_action = [1 / 2], t_reward = 1, t_done = False\<rparr>,
         \<lparr>t_obs = 1, t_next_obs = 2, t_action = [1 / 2], t_reward = 1, t_done = False\<rparr>,
         \<lparr>t_obs = 2, t_next_obs = 3, t_action = [1 / 2], t_reward = 1, t_done = True\<rparr>],
      info_buffer = [], success_buffer = [],
      trace =
        [OnRolloutStart, Callback CbNone, Predict 0 True, EnvStep [1 / 2],
         Callback CbNone, Predict 1 True, EnvStep [1 / 2],
         Callback CbNone, Predict 2 True, EnvStep [1 / 2], OnRolloutEnd]\<rparr>"

text \<open>
  The same with state-dependent exploration and the on-policy snapshot, a budget of
  four steps, a resample frequency of two, and a policy whose output \<open>[3]\<close> lies
  outside the bounds.
\<close>

definition sde_setting :: "(nat, nat) setting" where
  "sde_setting =
     base_setting\<lparr>use_sde := True, on_policy_exploration := True, sde_sample_freq := 2,
                  n_steps := 4, predict := (\<lambda>k ob d. [3])\<rparr>"

definition sde_final :: "(nat, nat) state" where
  "sde_final =
     \<lparr>cur_env = 4, cur_obs = 4, cur_obs_u = Some 3, cur_done = False,
      cur_num_timesteps = 4, total_steps = 4, total_episodes = 1,
      episode_reward = 1, episode_timesteps = 1, episode_rewards = [3],
      total_timesteps = [3],
      rollout = Some
        \<lparr>observations = [0, 1, 2, 3], actions = [[3], [3], [3], [3]],
         rewards = [1, 1, 1, 1], dones = [False, False, True, False],
         rd_values = [0, 1, 2, 3], returns = Some [3 / 2, 1, 7 / 2, 5],
         advantage = Some [3 / 2, 0, 3 / 2, 2]\<rparr>,
      buffer = Some
        [\<lparr>t_obs = 0, t_next_obs = 1, t_action = [1], t_reward = 1, t_done = False\<rparr>,
         \<lparr>t_obs = 1, t_next_obs = 2, t_action = [1], t_reward = 1, t_done = False\<rparr>,
         \<lparr>t_obs = 2, t_next_obs = 3, t_action = [1], t_reward = 1, t_done = True\<rparr>,
         \<lparr>t_obs = 3, t_next_obs = 4, t_action = [1], t_reward = 1, t_done = False\<rparr>],
      info_buffer = [], success_buffer = [],
      trace =
        [ResetNoise, OnRolloutStart,
         Callback CbNone, ResetNoise, Predict 0 False, EnvStep [1], VfNet 0,
         Callback CbNone, ResetNoise, Predict 1 False, EnvStep [1], VfNet 1,
         Callback CbNone, ResetNoise, Predict 2 False, EnvStep [1], VfNet 2,
         Callback CbNone, ResetNoise, Predict 3 False, EnvStep [1], VfNet 3,
         VfNet 4, OnRolloutEnd]\<rparr>"

text \<open>A budget of ten steps and a callback that returns \<open>False\<close> at its third call.\<close>

definition stop_setting :: "(nat, nat) setting" where
  "stop_setting =
     sde_setting\<lparr>n_steps := 10, callback := (\<lambda>k. if k = 2 then CbFalse else CbTrue)\<rparr>"

definition stop_final :: "(nat, nat) state" where
  "stop_final =
     \<lparr>cur_env = 2, cur_obs = 2, cur_obs_u = Some 1, cur_done = False,
      cur_num_timesteps = 2, total_steps = 2, total_episodes = 0,
      episode_reward = 2, episode_timesteps = 2, episode_rewards = [],
      total_timesteps = [],
      rollout = Some
        \<lparr>observations = [0, 1], actions = [[3], [3]], rewards = [1, 1],
         dones = [False, False], rd_values = [0, 1], returns = None, advantage = None\<rparr>,
      buffer = Some
        [\<lparr>t_obs = 0, t_next_obs = 1, t_action = [1], t_reward = 1, t_done = False\<rparr>,
         \<lparr>t_obs = 1, t_next_obs = 2, t_action = [1], t_reward = 1, t_done = False\<rparr>],
      info_buffer = [], success_buffer = [],
      trace =
        [ResetNoise, OnRolloutStart,
         Callback CbTrue, ResetNoise, Predict 0 False, EnvStep [1], VfNet 0,
         Callback CbTrue, ResetNoise, Predict 1 False, EnvStep [1], VfNet 1,
         Callback CbFalse]\<rparr>"

text \<open>A snapshot of two steps, the second of which ends the episode.\<close>

definition two_step_snapshot :: "(nat, real) rollout_data" where
  "two_step_snapshot =
     \<lparr>observations = [0, 1], actions = [[0], [0]], rewards = [1, 2],
      dones = [False, True], rd_values = [1 / 2, 3], returns = None, advantage = None\<rparr>"

text \<open>Two steps of warm-up, then the policy; a budget of three steps.\<close>

definition warm_setting :: "(nat, nat) setting" where
  "warm_setting = base_setting\<lparr>learning_starts := 2, n_steps := 3\<rparr>"

definition warm_final :: "(nat, nat) state" where
  "warm_final =
     \<lparr>cur_env = 3, cur_obs = 3, cur_obs_u = Some 2, cur_done = True,
      cur_num_timesteps = 3, total_steps = 3, total_episodes = 1,
      episode_reward = 3, episode_timesteps = 3, episode_rewards = [3],
      total_timesteps = [3], rollout = None,
      buffer = Some
        [\<lparr>t_obs = 0, t_next_obs = 1, t_action = [0], t_reward = 1, t_done = False\<rparr>,
         \<lparr>t_obs = 1, t_next_obs = 2, t_action = [0], t_reward = 1, t_done = False\<rparr>,
         \<lparr>t_obs = 2, t_next_obs = 3, t_action = [1 / 2], t_reward = 1, t_done = True\<rparr>],
      info_buffer = [], success_buffer = [],
      trace =
        [OnRolloutStart, Callback CbNone, ActionSpaceSample, EnvStep [0],
         Callback CbNone, ActionSpaceSample, EnvStep [0],
         Callback CbNone, Predict 2 True, EnvStep [1 / 2], OnRolloutEnd]\<rparr>"

text \<open>
  A normalization wrapper whose original observation is twice the one the step
  returns (the wrapper halves it) and whose original reward is \<open>10\<close>.
\<close>

definition doubling :: "(nat, nat) vec_normalize" where
  "doubling = \<lparr>get_original_obs = (\<lambda>e. 2 * e), get_original_reward = (\<lambda>e. 10)\<rparr>"

definition norm_setting :: "(nat, nat) setting" where
  "norm_setting = base_setting\<lparr>vec_normalize_env := Some doubling\<rparr>"

definition norm_final :: "(nat, nat) state" where
  "norm_final =
     \<lparr>cur_env = 3, cur_obs = 3, cur_obs_u = Some 6, cur_done = True,
      cur_num_timesteps = 3, total_steps = 3, total_episodes = 1,
      episode_reward = 1, episode_timesteps = 1, episode_rewards = [1],
      total_timesteps = [1], rollout = None,
      buffer = Some
        [\<lparr>t_obs = 0, t_next_obs = 2, t_action = [1 / 2], t_reward = 10, t_done = False\<rparr>,
         \<lparr>t_obs = 2, t_next_obs = 4, t_action = [1 / 2], t_reward = 10, t_done = False\<rparr>,
         \<lparr>t_obs = 4, t_next_obs = 6, t_action = [1 / 2], t_reward = 10, t_done = True\<rparr>],
      info_buffer = [], success_buffer = [],
      trace =
        [OnRolloutStart, Callback CbNone, Predict 0 True, EnvStep [1 / 2],
         Callback CbNone, Predict 1 True, EnvStep [1 / 2],
         Callback CbNone, Predict 2 True, EnvStep [1 / 2], OnRolloutEnd]\<rparr>"

text \<open>The first example without a replay buffer.\<close>

definition no_buffer_setting :: "(nat, nat) setting" where
  "no_buffer_setting = base_setting\<lparr>replay_buffer := None\<rparr>"

definition no_buffer_final :: "(nat, nat) state" where
  "no_buffer_final = base_final\<lparr>cur_obs_u := None, buffer := None\<rparr>"

text \<open>State-dependent exploration with a budget of three steps, which the resample
  frequency of two does not divide.\<close>

definition odd_budget_setting :: "(nat, nat) setting" where
  "odd_budget_setting = sde_setting\<lparr>n_steps := 3\<rparr>"

definition odd_budget_final :: "(nat, nat) state" where
  "odd_budget_final =
     \<lparr>cur_env = 3, cur_obs = 3, cur_obs_u = Some 2, cur_done = True,
      cur_num_timesteps = 3, total_steps = 3, total_episodes = 1,
      episode_reward = 3, episode_timesteps = 3, episode_rewards = [3],
      total_timesteps = [3],
      rollout = Some
        \<lparr>observations = [0, 1, 2], actions = [[3], [3], [3]], rewards = [1, 1, 1],
         dones = [False, False, True], rd_values = [0, 1, 2],
         returns = Some [3 / 2, 1, 1], advantage = Some [3 / 2, 0, - 1]\<rparr>,
      buffer = Some
        [\<lparr>t_obs = 0, t_next_obs = 1, t_action = [1], t_reward = 1, t_done = False\<rparr>,
         \<lparr>t_obs = 1, t_next_obs = 2, t_action = [1], t_reward = 1, t_done = False\<rparr>,
         \<lparr>t_obs = 2, t_next_obs = 3, t_action = [1], t_reward = 1, t_done = True\<rparr>],
      info_buffer = [], success_buffer = [],
      trace =
        [ResetNoise, OnRolloutStart,
         Callback CbNone, Predict 0 False, EnvStep [1], VfNet 0,
         Callback CbNone, Predict 1 False, EnvStep [1], VfNet 1,
         Callback CbNone, Predict 2 False, EnvStep [1], VfNet 2,
         VfNet 3, OnRolloutEnd]\<rparr>"

section \<open>Properties\<close>

subsection \<open>The action transform is a bijection between the bounds and \<open>[-1, 1]\<close>\<close>

lemma length_scale_action:
  "length (scale_action lo hi a) = min (length a) (min (length lo) (length hi))"
  by (simp add: scale_action_def)

lemma length_unscale_action:
  "length (unscale_action lo hi a) = min (length a) (min (length lo) (length hi))"
  by (simp add: unscale_action_def)

lemma scale_action_nth:
  "i < length action \<Longrightarrow> length lo = length action \<Longrightarrow> length hi = length action \<Longrightarrow>
   scale_action lo hi action ! i = 2 * ((action ! i - lo ! i) / (hi ! i - lo ! i)) - 1"
  by (simp add: scale_action_def)

lemma unscale_action_nth:
  "i < length a \<Longrightarrow> length lo = length a \<Longrightarrow> length hi = length a \<Longrightarrow>
   unscale_action lo hi a ! i = lo ! i + (0.5 * (a ! i + 1) * (hi ! i - lo ! i))"
  by (simp add: unscale_action_def)

lemma affine_inverse:
  fixes l h a :: real
  assumes "l < h"
  shows "l + (0.5 * ((2 * ((a - l) / (h - l)) - 1) + 1) * (h - l)) = a"
proof -
  have nz: "h - l \<noteq> 0" using assms by simp
  have "0.5 * ((2 * ((a - l) / (h - l)) - 1) + 1) * (h - l) = ((a - l) / (h - l)) * (h - l)"
    by (simp add: algebra_simps)
  also have "\<dots> = a - l" using nz by simp
  finally show ?thesis by simp
qed

text \<open>
  Claim C8. For bounds with \<open>low < high\<close> elementwise and an action with
  \<open>low \<le> a \<le> high\<close> elementwise, \<open>unscale_action (scale_action a) = a\<close>, where
  \<open>scale_action\<close> computes \<open>2 * (a - low) / (high - low) - 1\<close> and \<open>unscale_action\<close>
  computes \<open>low + 0.5 * (n + 1) * (high - low)\<close>. Both are functions of their arguments
  alone. The equality is exact over the reals; the rounding of floating point is not
  modelled.
\<close>

theorem action_transform_roundtrip:
  assumes lh: "list_all2 (<) lo hi"
    and la: "list_all2 (\<le>) lo action"
    and ah: "list_all2 (\<le>) action hi"
  shows "unscale_action lo hi (scale_action lo hi action) = action"
proof (rule nth_equalityI)
  have len: "length lo = length action" "length hi = length action"
    using la ah by (simp_all add: list_all2_lengthD)
  show "length (unscale_action lo hi (scale_action lo hi action)) = length action"
    using len by (simp add: length_unscale_action length_scale_action)
  fix i assume "i < length (unscale_action lo hi (scale_action lo hi action))"
  then have i: "i < length action"
    using len by (simp add: length_unscale_action length_scale_action)
  then have lt: "lo ! i < hi ! i"
    using lh len by (simp add: list_all2_nthD)
  have "unscale_action lo hi (scale_action lo hi action) ! i
      = lo ! i + (0.5 * (scale_action lo hi action ! i + 1) * (hi ! i - lo ! i))"
    using i len by (simp add: unscale_action_nth length_scale_action)
  also have "\<dots> = lo ! i + (0.5 * ((2 * ((action ! i - lo ! i) / (hi ! i - lo ! i)) - 1) + 1)
                                 * (hi ! i - lo ! i))"
    using i len by (simp only: scale_action_nth)
  also have "\<dots> = action ! i" using lt by (rule affine_inverse)
  finally show "unscale_action lo hi (scale_action lo hi action) ! i = action ! i" .
qed

theorem action_transform_roundtrip_witness:
  "list_all2 (<) [0, - 2] [4, 2 :: real] \<and> list_all2 (\<le>) [0, - 2] [1, 2 :: real]
   \<and> list_all2 (\<le>) [1, 2] [4, 2 :: real]
   \<and> scale_action [0, - 2] [4, 2] [1, 2] = [- (1 / 2), 1]
   \<and> unscale_action [0, - 2] [4, 2] (scale_action [0, - 2] [4, 2] [1, 2]) = [1, 2]"
  using action_transform_roundtrip [of "[0, - 2]" "[4, 2]" "[1, 2]"]
  by (simp add: scale_action_def)

subsection \<open>Returns and advantage\<close>

text \<open>
  The loop leaves the entries it has not reached as they were, and each entry it
  writes is computed from the entry after it.
\<close>

lemma backward_returns_spec:
  fixes g :: "'a::{zero_neq_one,plus,minus,times}"
  assumes "k \<le> length rs" and "length rets = length rs" and "length ds = length rs"
    and "k < length rs \<longrightarrow> last_return = rets ! k"
  shows "\<exists>out. backward_returns k g nnt nv rs ds last_return rets = Inr out
           \<and> length out = length rs
           \<and> (\<forall>i. k \<le> i \<and> i < length rs \<longrightarrow> out ! i = rets ! i)
           \<and> (\<forall>i<k. out ! i = (if i = length rs - 1 then rs ! i + nnt * nv
                                  else rs ! i + g * out ! (i + 1) * (1 - ds ! (i + 1))))"
  using assms
proof (induction k arbitrary: last_return rets)
  case 0
  then show ?case by simp
next
  case (Suc k)
  define lr where "lr = (if k = length rs - 1 then rs ! k + nnt * nv
                         else rs ! k + g * last_return * (1 - ds ! (k + 1)))"
  have k: "k < length rs" using Suc.prems(1) by simp
  have unfold: "backward_returns (Suc k) g nnt nv rs ds last_return rets
      = backward_returns k g nnt nv rs ds lr (rets[k := lr])"
    using k Suc.prems(3) by (auto simp: lr_def Let_def)
  have "\<exists>out. backward_returns k g nnt nv rs ds lr (rets[k := lr]) = Inr out
           \<and> length out = length rs
           \<and> (\<forall>i. k \<le> i \<and> i < length rs \<longrightarrow> out ! i = (rets[k := lr]) ! i)
           \<and> (\<forall>i<k. out ! i = (if i = length rs - 1 then rs ! i + nnt * nv
                                  else rs ! i + g * out ! (i + 1) * (1 - ds ! (i + 1))))"
    using k Suc.prems(2,3) by (intro Suc.IH) simp_all
  then obtain out where run: "backward_returns k g nnt nv rs ds lr (rets[k := lr]) = Inr out"
    and len: "length out = length rs"
    and keep: "\<forall>i. k \<le> i \<and> i < length rs \<longrightarrow> out ! i = (rets[k := lr]) ! i"
    and below: "\<forall>i<k. out ! i = (if i = length rs - 1 then rs ! i + nnt * nv
                                  else rs ! i + g * out ! (i + 1) * (1 - ds ! (i + 1)))"
    by blast
  have at_k: "out ! k = lr" using keep k Suc.prems(2) by simp
  have above: "\<forall>i. Suc k \<le> i \<and> i < length rs \<longrightarrow> out ! i = rets ! i"
    using keep by simp
  have "out ! k = (if k = length rs - 1 then rs ! k + nnt * nv
                   else rs ! k + g * out ! (k + 1) * (1 - ds ! (k + 1)))"
  proof (cases "k = length rs - 1")
    case True
    then show ?thesis using at_k by (simp add: lr_def)
  next
    case False
    with k have next_k: "Suc k < length rs" by simp
    then have "last_return = rets ! Suc k" using Suc.prems(4) by simp
    also have "\<dots> = out ! Suc k" using above next_k by simp
    finally show ?thesis using at_k False by (simp add: lr_def)
  qed
  with below have "\<forall>i<Suc k. out ! i = (if i = length rs - 1 then rs ! i + nnt * nv
                                  else rs ! i + g * out ! (i + 1) * (1 - ds ! (i + 1)))"
    by (simp add: less_Suc_eq)
  with unfold run len above show ?case by simp
qed

lemma post_processing_total:
  fixes g :: "'a::{zero_neq_one,plus,minus,times}"
  assumes "length (dones rd) = length (rewards rd)"
    and "length (rd_values rd) = length (rewards rd)"
  shows "\<exists>rets. post_processing g d nv rd
            = Inr (rd\<lparr>returns := Some rets, advantage := Some (map2 (-) rets (rd_values rd))\<rparr>)
         \<and> length rets = length (rewards rd)
         \<and> (\<forall>i<length (rewards rd). rets ! i =
               (if i = length (rewards rd) - 1 then rewards rd ! i + (1 - of_bool d) * nv
                else rewards rd ! i + g * rets ! (i + 1) * (1 - map of_bool (dones rd) ! (i + 1))))"
proof -
  have "\<exists>out. backward_returns (length (rewards rd)) g (1 - of_bool d) nv (rewards rd)
                  (map of_bool (dones rd)) 0 (rewards rd) = Inr out
           \<and> length out = length (rewards rd)
           \<and> (\<forall>i. length (rewards rd) \<le> i \<and> i < length (rewards rd) \<longrightarrow> out ! i = rewards rd ! i)
           \<and> (\<forall>i<length (rewards rd). out ! i =
                 (if i = length (rewards rd) - 1 then rewards rd ! i + (1 - of_bool d) * nv
                  else rewards rd ! i + g * out ! (i + 1) * (1 - map of_bool (dones rd) ! (i + 1))))"
    using assms by (intro backward_returns_spec) simp_all
  then obtain out where
    "backward_returns (length (rewards rd)) g (1 - of_bool d) nv (rewards rd)
                  (map of_bool (dones rd)) 0 (rewards rd) = Inr out"
    "length out = length (rewards rd)"
    "\<forall>i<length (rewards rd). out ! i =
                 (if i = length (rewards rd) - 1 then rewards rd ! i + (1 - of_bool d) * nv
                  else rewards rd ! i + g * out ! (i + 1) * (1 - map of_bool (dones rd) ! (i + 1)))"
    by blast
  then show ?thesis using assms(2)
    by (intro exI [of _ out]) (simp add: post_processing_def tensor_sub_def)
qed



text \<open>
  Claim C5. After the post-processing of a snapshot (its lists of one length),
  \<open>advantage[i] = returns[i] - values[i]\<close> at every index \<open>i\<close>, the values being those
  captured during collection. No law of arithmetic is used: the entry is that one
  subtraction.
\<close>

theorem advantage_identity:
  fixes g :: "'a::{zero_neq_one,plus,minus,times}"
  assumes "length (dones rd) = length (rewards rd)"
    and "length (rd_values rd) = length (rewards rd)"
  shows "\<exists>rd' rets adv. post_processing g d next_value rd = Inr rd'
           \<and> returns rd' = Some rets \<and> advantage rd' = Some adv
           \<and> rd_values rd' = rd_values rd
           \<and> length rets = length (rewards rd) \<and> length adv = length (rewards rd)
           \<and> (\<forall>i<length (rewards rd). adv ! i = rets ! i - rd_values rd' ! i)"
proof -
  from post_processing_total [OF assms, of g d next_value] obtain rets where
    pp: "post_processing g d next_value rd
            = Inr (rd\<lparr>returns := Some rets, advantage := Some (map2 (-) rets (rd_values rd))\<rparr>)"
    and len: "length rets = length (rewards rd)"
    by blast
  then show ?thesis using assms(2) by simp
qed

theorem advantage_identity_witness:
  "length (dones two_step_snapshot) = length (rewards two_step_snapshot)
   \<and> length (rd_values two_step_snapshot) = length (rewards two_step_snapshot)
   \<and> post_processing (1 / 2) True 7 two_step_snapshot
       = Inr (two_step_snapshot\<lparr>returns := Some [1, 2], advantage := Some [1 / 2, - 1]\<rparr>)
   \<and> [1 / 2, - 1 :: real] ! 0 = [1, 2] ! 0 - rd_values two_step_snapshot ! 0
   \<and> [1 / 2, - 1 :: real] ! 1 = [1, 2] ! 1 - rd_values two_step_snapshot ! 1"
proof -
  have wf: "length (dones two_step_snapshot) = length (rewards two_step_snapshot)"
    "length (rd_values two_step_snapshot) = length (rewards two_step_snapshot)"
    by (simp_all add: two_step_snapshot_def)
  have run: "post_processing (1 / 2) True 7 two_step_snapshot
       = Inr (two_step_snapshot\<lparr>returns := Some [1, 2], advantage := Some [1 / 2, - 1]\<rparr>)"
    by (simp add: post_processing_def tensor_sub_def two_step_snapshot_def)
  from advantage_identity [OF wf, of "1 / 2" True 7] wf run show ?thesis
    by (simp add: two_step_snapshot_def)
qed

subsection \<open>The two loops\<close>

text \<open>
  \<open>outer\<close> unfolds without using fuel, so its equation is applied by name only.
\<close>

declare outer.simps [simp del]

lemmas model_defs =
  collect_rollouts_def rollout_start_def begin_episode_def step_body_def
  store_transition_def clipped_action_def scaled_action_def unscaled_action_def warmup_def
  scale_action_def unscale_action_def clip_def update_info_buffer_def
  append_rollout_data_def action_events_def resample_noise_def episode_end_def
  rollout_end_def callback_stop_def log_event_def post_processing_def tensor_sub_def
  empty_rollout_data_def deque_append_def outer.simps Let_def

text \<open>
  An invariant of the loop heads holds in the state from which a returning call
  leaves: through \<open>rollout_end\<close> with both budgets met, or through the callback.
\<close>

lemma inner_outcome:
  assumes beg: "\<And>s. P s \<Longrightarrow> P (begin_episode s)"
    and step: "\<And>s s'. P s \<Longrightarrow> callback w (total_steps s) \<noteq> CbFalse \<Longrightarrow>
        step_body w (log_event (Callback (callback w (total_steps s))) s) = Inr s' \<Longrightarrow> P s'"
    and epi: "\<And>s s'. P s \<Longrightarrow> cur_done s \<Longrightarrow> episode_end w s = Inr s' \<Longrightarrow> P s'"
  shows "P s \<Longrightarrow> inner fuel w s = Some (Inr out) \<Longrightarrow>
     (\<exists>s0. P s0 \<and> \<not> (total_steps s0 < n_steps w \<or> total_episodes s0 < n_episodes w)
             \<and> rollout_end w s0 = Inr out)
     \<or> (\<exists>s0. P s0 \<and> callback w (total_steps s0) = CbFalse \<and> out = callback_stop s0)"
    (is "_ \<Longrightarrow> _ \<Longrightarrow> ?Q")
proof (induction fuel arbitrary: s)
  case 0
  then show ?case by simp
next
  case (Suc fuel)
  have again: "?Q" if "P t" and "outer fuel w t = Some (Inr out)" for t
  proof (cases "total_steps t < n_steps w \<or> total_episodes t < n_episodes w")
    case True
    with that have "inner fuel w (begin_episode t) = Some (Inr out)"
      by (simp add: outer.simps)
    with Suc.IH [OF beg [OF that(1)]] show ?thesis .
  next
    case False
    with that have "rollout_end w t = Inr out" by (simp add: outer.simps)
    with False that(1) show ?thesis by blast
  qed
  show ?case
  proof (cases "callback w (total_steps s) = CbFalse")
    case True
    with Suc.prems have "out = callback_stop s" by simp
    with True Suc.prems(1) show ?thesis by blast
  next
    case False
    let ?s1 = "log_event (Callback (callback w (total_steps s))) s"
    from False Suc.prems(2) obtain s' where s': "step_body w ?s1 = Inr s'"
      by (cases "step_body w ?s1") simp_all
    have Ps': "P s'" using step [OF Suc.prems(1) False s'] .
    show ?thesis
    proof (cases "\<not> (0 < n_steps w \<and> n_steps w \<le> total_steps s') \<and> \<not> cur_done s'")
      case True
      with False s' Suc.prems(2) have "inner fuel w s' = Some (Inr out)" by simp
      with Suc.IH [OF Ps'] show ?thesis .
    next
      case leave: False
      show ?thesis
      proof (cases "cur_done s'")
        case True
        with False s' Suc.prems(2) leave obtain s'' where
          s'': "episode_end w s' = Inr s''" and o: "outer fuel w s'' = Some (Inr out)"
          by (cases "episode_end w s'") simp_all
        from epi [OF Ps' True s''] o show ?thesis by (rule again)
      next
        case nd: False
        with False s' Suc.prems(2) leave have "outer fuel w s' = Some (Inr out)" by auto
        with Ps' show ?thesis by (rule again)
      qed
    qed
  qed
qed

lemma collect_rollouts_outcome:
  assumes start: "\<And>s. rollout_start w = Inr s \<Longrightarrow> P s"
    and beg: "\<And>s. P s \<Longrightarrow> P (begin_episode s)"
    and step: "\<And>s s'. P s \<Longrightarrow> callback w (total_steps s) \<noteq> CbFalse \<Longrightarrow>
        step_body w (log_event (Callback (callback w (total_steps s))) s) = Inr s' \<Longrightarrow> P s'"
    and epi: "\<And>s s'. P s \<Longrightarrow> cur_done s \<Longrightarrow> episode_end w s = Inr s' \<Longrightarrow> P s'"
    and ret: "collect_rollouts fuel w = Some (Inr out)"
  shows "(\<exists>s0. P s0 \<and> \<not> (total_steps s0 < n_steps w \<or> total_episodes s0 < n_episodes w)
             \<and> rollout_end w s0 = Inr out)
     \<or> (\<exists>s0. P s0 \<and> callback w (total_steps s0) = CbFalse \<and> out = callback_stop s0)"
proof -
  from ret obtain s where s: "rollout_start w = Inr s" and o: "outer fuel w s = Some (Inr out)"
    by (cases "rollout_start w") (simp_all add: collect_rollouts_def)
  have Ps: "P s" using start [OF s] .
  show ?thesis
  proof (cases "total_steps s < n_steps w \<or> total_episodes s < n_episodes w")
    case True
    with o have "inner fuel w (begin_episode s) = Some (Inr out)" by (simp add: outer.simps)
    show ?thesis
    proof (rule inner_outcome [where P = P and w = w and s = "begin_episode s" and fuel = fuel])
      show "P (begin_episode s)" using Ps by (rule beg)
    qed (fact beg step epi \<open>inner fuel w (begin_episode s) = Some (Inr out)\<close> | erule (2) step | erule (2) epi)+
  next
    case False
    with o have "rollout_end w s = Inr out" by (simp add: outer.simps)
    with False Ps show ?thesis by blast
  qed
qed

lemma update_info_buffer_fields [simp]:
  "total_episodes (update_info_buffer i d s) = total_episodes s"
  "episode_rewards (update_info_buffer i d s) = episode_rewards s"
  "total_timesteps (update_info_buffer i d s) = total_timesteps s"
  by (simp_all add: update_info_buffer_def Let_def split: option.splits)

lemma step_body_cases:
  assumes "step_body w s = Inr s'"
  obtains e' new_obs reward d infos buf new_obs_u where
    "env_step w (cur_env s) (unscale_action (low w) (high w) (clipped_action w s))
       = (e', new_obs, reward, d, infos)"
    "store_transition w s e' new_obs reward d = Inr (buf, new_obs_u)"
    "cur_env s' = e'" "cur_obs s' = new_obs" "cur_done s' = d"
    "cur_obs_u s' = (if vec_normalize_env w \<noteq> None then new_obs_u
                     else if buffer s \<noteq> None then Some (cur_obs s) else cur_obs_u s)"
    "vec_normalize_env w \<noteq> None \<longrightarrow> new_obs_u \<noteq> None"
    "buffer s' = buf"
    "rollout s' = append_rollout_data w s reward d"
  using assms
  by (auto simp: step_body_def Let_def split: prod.splits sum.splits if_splits)

lemma step_body_counters:
  assumes "step_body w s = Inr s'"
  shows "total_steps s' = total_steps s + 1"
    and "total_episodes s' = total_episodes s"
    and "cur_num_timesteps s' = cur_num_timesteps s + 1"
  using assms
  by (auto simp: step_body_def Let_def split: prod.splits sum.splits if_splits)

lemma step_body_trace:
  assumes "step_body w s = Inr s'"
  shows "trace s' = trace s @ action_events w s
           @ [EnvStep (unscale_action (low w) (high w) (clipped_action w s))]
           @ (if rollout s \<noteq> None then [VfNet (cur_obs s)] else [])"
  using assms
  by (auto simp: step_body_def Let_def split: prod.splits sum.splits if_splits)

lemma env_steps_append [simp]: "env_steps (xs @ ys) = env_steps xs @ env_steps ys"
  by (induction xs rule: env_steps.induct) simp_all

lemma log_event_fields [simp]:
  "trace (log_event ev s) = trace s @ [ev]"
  "total_steps (log_event ev s) = total_steps s"
  "total_episodes (log_event ev s) = total_episodes s"
  "rollout (log_event ev s) = rollout s"
  "buffer (log_event ev s) = buffer s"
  "cur_obs (log_event ev s) = cur_obs s"
  "cur_obs_u (log_event ev s) = cur_obs_u s"
  "cur_env (log_event ev s) = cur_env s"
  "cur_done (log_event ev s) = cur_done s"
  "cur_num_timesteps (log_event ev s) = cur_num_timesteps s"
  by (simp_all add: log_event_def)

lemma log_event_warmup [simp]: "warmup w (log_event ev s) = warmup w s"
  by (simp add: warmup_def)

lemma log_event_unscaled_action [simp]:
  "unscaled_action w (log_event ev s) = unscaled_action w s"
  by (simp add: unscaled_action_def)

lemma log_event_scaled_action [simp]: "scaled_action w (log_event ev s) = scaled_action w s"
  by (simp add: scaled_action_def)

lemma log_event_clipped_action [simp]:
  "clipped_action w (log_event ev s) = clipped_action w s"
  by (simp add: clipped_action_def Let_def split: option.splits)

lemma log_event_action_events [simp]: "action_events w (log_event ev s) = action_events w s"
  by (simp add: action_events_def)

lemma action_events_set:
  "set (action_events w s) \<subseteq> {ResetNoise, ActionSpaceSample, Predict (cur_obs s) (\<not> use_sde w), ActionNoiseCall}"
  by (auto simp: action_events_def split: option.splits)

lemma env_steps_action_events [simp]: "env_steps (action_events w s) = []"
  by (simp add: action_events_def split: option.splits)

lemma append_rollout_data_unprocessed:
  assumes "\<forall>rd. rollout s = Some rd \<longrightarrow> returns rd = None \<and> advantage rd = None"
    and "append_rollout_data w s reward d = Some rd'"
  shows "returns rd' = None \<and> advantage rd' = None"
  using assms by (auto simp: append_rollout_data_def split: option.splits)

lemma run_inv_start: "rollout_start w = Inr s \<Longrightarrow> run_inv w s"
  by (auto simp: rollout_start_def run_inv_def empty_rollout_data_def split: if_splits)

lemma run_inv_begin: "run_inv w s \<Longrightarrow> run_inv w (begin_episode s)"
  by (simp add: run_inv_def begin_episode_def)

lemma run_inv_step:
  assumes inv: "run_inv w s" and cb: "callback w (total_steps s) \<noteq> CbFalse"
    and st: "step_body w (log_event (Callback (callback w (total_steps s))) s) = Inr s'"
  shows "run_inv w s'"
proof -
  let ?s1 = "log_event (Callback (callback w (total_steps s))) s"
  have tr: "trace s' = trace s @ [Callback (callback w (total_steps s))] @ action_events w s
           @ [EnvStep (unscale_action (low w) (high w) (clipped_action w s))]
           @ (if rollout s \<noteq> None then [VfNet (cur_obs s)] else [])"
    using step_body_trace [OF st] by simp
  have ts: "total_steps s' = total_steps s + 1"
    using step_body_counters(1) [OF st] by simp
  have a: "Callback CbFalse \<notin> set (trace s')"
    using inv cb action_events_set [of w s] by (auto simp: tr run_inv_def)
  have b: "OnRolloutEnd \<notin> set (trace s')"
    using inv action_events_set [of w s] by (auto simp: tr run_inv_def)
  have c: "int (length (env_steps (trace s'))) = total_steps s'"
    using inv by (simp add: tr ts run_inv_def)
  have d: "\<forall>k. 0 \<le> k \<and> k < total_steps s' \<longrightarrow> callback w k \<noteq> CbFalse"
  proof (intro allI impI)
    fix k assume "0 \<le> k \<and> k < total_steps s'"
    then have "k < total_steps s \<or> k = total_steps s" using ts by auto
    then show "callback w k \<noteq> CbFalse" using inv cb \<open>0 \<le> k \<and> k < total_steps s'\<close>
      by (auto simp: run_inv_def)
  qed
  have e: "\<forall>rd. rollout s' = Some rd \<longrightarrow> returns rd = None \<and> advantage rd = None"
  proof (intro allI impI)
    fix rd assume rd: "rollout s' = Some rd"
    from st obtain reward dn where "rollout s' = append_rollout_data w ?s1 reward dn"
      by (rule step_body_cases)
    with rd have "append_rollout_data w ?s1 reward dn = Some rd" by simp
    moreover have "\<forall>rd. rollout ?s1 = Some rd \<longrightarrow> returns rd = None \<and> advantage rd = None"
      using inv by (simp add: run_inv_def)
    ultimately show "returns rd = None \<and> advantage rd = None"
      by (rule append_rollout_data_unprocessed [rotated])
  qed
  from a b c d e show ?thesis unfolding run_inv_def by blast
qed

lemma episode_end_cases:
  assumes "episode_end w s = Inr s'"
  obtains evs where "trace s' = trace s @ evs"
    "set evs \<subseteq> {ActionNoiseReset, LogDump (episode_num w + total_episodes s + 1)}"
    "total_steps s' = total_steps s" "total_episodes s' = total_episodes s + 1"
    "rollout s' = rollout s" "buffer s' = buffer s" "cur_env s' = cur_env s"
    "cur_obs s' = cur_obs s" "cur_obs_u s' = cur_obs_u s" "cur_done s' = cur_done s"
  using assms
  by (auto simp: episode_end_def Let_def log_event_def split: if_splits option.splits)

lemma env_steps_empty: "\<forall>ev \<in> set evs. \<forall>a. ev \<noteq> EnvStep a \<Longrightarrow> env_steps evs = []"
  by (induction evs rule: env_steps.induct) auto

lemma run_inv_episode_end:
  assumes inv: "run_inv w s" and ee: "episode_end w s = Inr s'"
  shows "run_inv w s'"
proof -
  from ee obtain evs where tr: "trace s' = trace s @ evs"
    and evs: "set evs \<subseteq> {ActionNoiseReset, LogDump (episode_num w + total_episodes s + 1)}"
    and same: "total_steps s' = total_steps s" "rollout s' = rollout s"
    by (rule episode_end_cases)
  from evs have "env_steps evs = []" by (intro env_steps_empty) auto
  with inv tr evs same show ?thesis by (auto simp: run_inv_def)
qed

lemma collect_rollouts_returns:
  assumes "collect_rollouts fuel w = Some (Inr out)"
  shows "(\<exists>s0. run_inv w s0 \<and> \<not> (total_steps s0 < n_steps w \<or> total_episodes s0 < n_episodes w)
             \<and> rollout_end w s0 = Inr out)
     \<or> (\<exists>s0. run_inv w s0 \<and> callback w (total_steps s0) = CbFalse \<and> out = callback_stop s0)"
  using run_inv_start run_inv_begin run_inv_step run_inv_episode_end assms
  by (rule collect_rollouts_outcome [where P = "run_inv w"])

lemma post_processing_keys:
  assumes "post_processing g d nv rd = Inr rd'"
  shows "returns rd' \<noteq> None" "advantage rd' \<noteq> None"
  using assms by (auto simp: post_processing_def split: sum.splits)

lemma rollout_end_cases:
  assumes "rollout_end w s0 = Inr ((m, ts, te, ob, c), s)"
  obtains evs where "ts = total_steps s0" "te = total_episodes s0" "ob = Some (cur_obs s0)" "c"
    "total_steps s = total_steps s0" "total_episodes s = total_episodes s0"
    "cur_obs s = cur_obs s0" "buffer s = buffer s0"
    "trace s = trace s0 @ evs @ [OnRolloutEnd]" "set evs \<subseteq> {VfNet (cur_obs s0)}"
    "\<forall>rd. rollout s = Some rd \<longrightarrow> returns rd \<noteq> None \<and> advantage rd \<noteq> None"
proof (cases "rollout s0")
  case None
  with assms have "ts = total_steps s0" "te = total_episodes s0" "ob = Some (cur_obs s0)" "c"
    "s = log_event OnRolloutEnd s0"
    by (auto simp: rollout_end_def Let_def)
  with None that [of "[]"] show ?thesis by (simp add: log_event_def)
next
  case (Some rd)
  with assms obtain rd' where pp: "post_processing (gamma w) (cur_done s0) (vf_net w (cur_obs s0)) rd = Inr rd'"
    and res: "ts = total_steps s0" "te = total_episodes s0" "ob = Some (cur_obs s0)" "c"
    and s: "s = s0\<lparr>rollout := Some rd', trace := trace s0
                 @ (if rewards rd = [] then [] else [VfNet (cur_obs s0)]) @ [OnRolloutEnd]\<rparr>"
    by (auto simp: rollout_end_def Let_def split: sum.splits)
  show ?thesis
    using res post_processing_keys [OF pp]
    by (intro that [of "if rewards rd = [] then [] else [VfNet (cur_obs s0)]"]) (simp_all add: s)
qed

lemma outer_continues:
  "total_steps s < n_steps w \<or> total_episodes s < n_episodes w \<Longrightarrow>
   outer fuel w s = inner fuel w (begin_episode s)"
  by (simp add: outer.simps)

subsection \<open>Budgets\<close>

text \<open>
  Claim C1. With budgets \<open>n_steps > 0\<close> and \<open>n_episodes > 0\<close>, the outer loop goes on
  while \<open>total_steps < n_steps\<close> or \<open>total_episodes < n_episodes\<close>
  (\<open>outer_continues\<close>), so a call that returns with the continue-training flag
  \<open>True\<close>, that is not through the callback, returns with
  \<open>total_steps \<ge> n_steps\<close> and \<open>total_episodes \<ge> n_episodes\<close>.
\<close>

theorem both_budgets_met:
  assumes "0 < n_steps w" and "0 < n_episodes w"
    and "collect_rollouts fuel w = Some (Inr ((m, ts, te, ob, True), s))"
  shows "n_steps w \<le> ts \<and> n_episodes w \<le> te"
proof -
  from collect_rollouts_returns [OF assms(3)] show ?thesis
  proof (elim disjE exE conjE)
    fix s0 :: "('a, 'b) state"
    assume unmet: "\<not> (total_steps s0 < n_steps w \<or> total_episodes s0 < n_episodes w)"
      and "rollout_end w s0 = Inr ((m, ts, te, ob, True), s)"
    then have "ts = total_steps s0" "te = total_episodes s0"
      by (auto elim: rollout_end_cases)
    with unmet show ?thesis by simp
  next
    fix s0 :: "('a, 'b) state"
    assume "((m, ts, te, ob, True), s) = callback_stop s0"
    then show ?thesis by (simp add: callback_stop_def)
  qed
qed

theorem both_budgets_met_witness:
  "0 < n_steps base_setting \<and> 0 < n_episodes base_setting
   \<and> collect_rollouts 10 base_setting = Some (Inr ((1, 3, 1, Some 3, True), base_final))
   \<and> n_steps base_setting \<le> 3 \<and> n_episodes base_setting \<le> 1"
proof -
  have budgets: "0 < n_steps base_setting" "0 < n_episodes base_setting"
    by (simp_all add: base_setting_def)
  have run: "collect_rollouts 10 base_setting = Some (Inr ((1, 3, 1, Some 3, True), base_final))"
    by (simp add: model_defs base_setting_def base_final_def eval_nat_numeral)
  from both_budgets_met [OF budgets run] budgets run show ?thesis by simp
qed

subsection \<open>The callback's stop\<close>

text \<open>
  At a head of the inner loop where the callback returns \<open>False\<close>, the collector
  returns at once, whatever the fuel; and a callback that returns \<open>False\<close> at its
  call number \<open>k\<close> ends the call within \<open>k + 1\<close> steps of fuel.
\<close>

lemma inner_stops_at_false:
  assumes "callback w (total_steps s) = CbFalse"
  shows "inner (Suc fuel) w s
     = Some (Inr ((0, total_steps s, total_episodes s, None, False),
                  log_event (Callback CbFalse) s))"
  using assms by (simp add: callback_stop_def)

lemma inner_ends_by_false:
  assumes "callback w k = CbFalse"
  shows "total_steps s \<le> k \<Longrightarrow> nat (k - total_steps s) < fuel \<Longrightarrow> \<exists>out. inner fuel w s = Some out"
proof (induction fuel arbitrary: s)
  case 0
  then show ?case by simp
next
  case (Suc fuel)
  have again: "\<exists>out. outer fuel w t = Some out"
    if "total_steps t \<le> k" and "nat (k - total_steps t) < fuel" for t
  proof (cases "total_steps t < n_steps w \<or> total_episodes t < n_episodes w")
    case True
    have "\<exists>out. inner fuel w (begin_episode t) = Some out"
      using that by (intro Suc.IH) (simp_all add: begin_episode_def)
    with True show ?thesis by (simp add: outer.simps)
  next
    case False
    then show ?thesis by (simp add: outer.simps)
  qed
  show ?case
  proof (cases "callback w (total_steps s) = CbFalse")
    case True
    then show ?thesis by simp
  next
    case False
    with assms have "total_steps s \<noteq> k" by auto
    with Suc.prems have below: "total_steps s < k" by simp
    let ?s1 = "log_event (Callback (callback w (total_steps s))) s"
    show ?thesis
    proof (cases "step_body w ?s1")
      case (Inl err)
      with False show ?thesis by simp
    next
      case (Inr s')
      have ts: "total_steps s' = total_steps s + 1"
        using step_body_counters(1) [OF Inr] by simp
      have le: "total_steps s' \<le> k" using below ts by simp
      have fu: "nat (k - total_steps s') < fuel" using below ts Suc.prems(2) by simp
      show ?thesis
      proof (cases "\<not> (0 < n_steps w \<and> n_steps w \<le> total_steps s') \<and> \<not> cur_done s'")
        case True
        with False Inr Suc.IH [OF le fu] show ?thesis by simp
      next
        case leave: False
        show ?thesis
        proof (cases "cur_done s'")
          case True
          show ?thesis
          proof (cases "episode_end w s'")
            case (Inl err)
            with False \<open>step_body w ?s1 = Inr s'\<close> leave True show ?thesis by simp
          next
            case ee: (Inr s'')
            then have "total_steps s'' = total_steps s'" by (auto elim: episode_end_cases)
            with le fu have "\<exists>out. outer fuel w s'' = Some out" by (intro again) simp_all
            with False \<open>step_body w ?s1 = Inr s'\<close> leave True ee show ?thesis by simp
          qed
        next
          case nd: False
          from le fu have "\<exists>out. outer fuel w s' = Some out" by (rule again)
          with False Inr leave nd show ?thesis by auto
        qed
      qed
    qed
  qed
qed

lemma false_callback_ends_call:
  assumes "0 \<le> k" and "callback w k = CbFalse" and "nat k < fuel"
  shows "\<exists>out. collect_rollouts fuel w = Some out"
proof (cases "rollout_start w")
  case (Inl err)
  then show ?thesis by (simp add: collect_rollouts_def)
next
  case (Inr s)
  then have zero: "total_steps s = 0" by (auto simp: rollout_start_def split: if_splits)
  show ?thesis
  proof (cases "total_steps s < n_steps w \<or> total_episodes s < n_episodes w")
    case True
    have "\<exists>out. inner fuel w (begin_episode s) = Some out"
      using assms zero by (intro inner_ends_by_false [where k = k]) (simp_all add: begin_episode_def)
    with True Inr show ?thesis by (simp add: collect_rollouts_def outer.simps)
  next
    case False
    with Inr show ?thesis by (simp add: collect_rollouts_def outer.simps)
  qed
qed

lemma returned_call_flag:
  assumes "collect_rollouts fuel w = Some (Inr ((m, ts, te, ob, c), s))"
  shows "(c \<longleftrightarrow> Callback CbFalse \<notin> set (trace s))
     \<and> (\<forall>k. 0 \<le> k \<and> k < ts \<longrightarrow> callback w k \<noteq> CbFalse)
     \<and> int (length (env_steps (trace s))) = ts
     \<and> (\<not> c \<longrightarrow> callback w ts = CbFalse \<and> last (trace s) = Callback CbFalse
              \<and> (m, ts, te, ob) = (0, total_steps s, total_episodes s, None))"
proof -
  from collect_rollouts_returns [OF assms] show ?thesis
  proof (elim disjE exE conjE)
    fix s0 :: "('a, 'b) state"
    assume inv: "run_inv w s0" and "rollout_end w s0 = Inr ((m, ts, te, ob, c), s)"
    then obtain evs where "ts = total_steps s0" "c"
      "trace s = trace s0 @ evs @ [OnRolloutEnd]" "set evs \<subseteq> {VfNet (cur_obs s0)}"
      by (auto elim: rollout_end_cases)
    moreover from this have "env_steps evs = []" by (intro env_steps_empty) auto
    ultimately show ?thesis using inv by (auto simp: run_inv_def)
  next
    fix s0 :: "('a, 'b) state"
    assume inv: "run_inv w s0" and "callback w (total_steps s0) = CbFalse"
      and "((m, ts, te, ob, c), s) = callback_stop s0"
    then show ?thesis by (auto simp: run_inv_def callback_stop_def)
  qed
qed

text \<open>
  Claim C7. When the callback returns \<open>False\<close> at a head of the inner loop, the
  collector returns there and then the tuple
  \<open>(0.0, total_steps, total_episodes, None, False)\<close>, having done nothing after the
  callback's call: no environment step, the counters as they were. A callback that
  returns \<open>False\<close> at its call number \<open>k\<close> makes every call with more than \<open>k\<close>
  units of fuel end, after at most \<open>k\<close> steps. And of a call that returns: the
  continue-training flag is \<open>False\<close> exactly when a call of the callback returned
  \<open>False\<close> (a callback that returns \<open>True\<close> or \<open>None\<close> lets the rollout go on, and on
  every other path the flag is \<open>True\<close>); no call of the callback before the last
  step counted returned \<open>False\<close>; \<open>total_steps\<close> is the number of calls of
  \<^verbatim>\<open>env.step\<close>; when the flag is \<open>False\<close>, the callback's call number
  \<open>total_steps\<close> returned \<open>False\<close>, that call is the last thing the collector did,
  and the tuple returned is \<open>(0.0, total_steps, total_episodes, None, False)\<close>.
\<close>

theorem callback_false_stops:
  "(callback w (total_steps s_head) = CbFalse \<longrightarrow>
      inner (Suc fuel_head) w s_head
        = Some (Inr ((0, total_steps s_head, total_episodes s_head, None, False),
                     log_event (Callback CbFalse) s_head)))
   \<and> (0 \<le> k_false \<and> callback w k_false = CbFalse \<and> nat k_false < fuel_end \<longrightarrow>
        (\<exists>out. collect_rollouts fuel_end w = Some out
           \<and> (\<forall>r t. out = Inr (r, t) \<longrightarrow> total_steps t \<le> k_false)))
   \<and> (collect_rollouts fuel w = Some (Inr ((m, ts, te, ob, c), s)) \<longrightarrow>
        (c \<longleftrightarrow> Callback CbFalse \<notin> set (trace s))
        \<and> (\<forall>k. 0 \<le> k \<and> k < ts \<longrightarrow> callback w k \<noteq> CbFalse)
        \<and> int (length (env_steps (trace s))) = ts
        \<and> (\<not> c \<longrightarrow> callback w ts = CbFalse \<and> last (trace s) = Callback CbFalse
                 \<and> (m, ts, te, ob) = (0, total_steps s, total_episodes s, None)))"
proof (intro conjI impI)
  assume "callback w (total_steps s_head) = CbFalse"
  then show "inner (Suc fuel_head) w s_head
        = Some (Inr ((0, total_steps s_head, total_episodes s_head, None, False),
                     log_event (Callback CbFalse) s_head))"
    by (rule inner_stops_at_false)
next
  assume at: "0 \<le> k_false \<and> callback w k_false = CbFalse \<and> nat k_false < fuel_end"
  then obtain out where out: "collect_rollouts fuel_end w = Some out"
    using false_callback_ends_call [where k = k_false and w = w and fuel = fuel_end] by auto
  have "total_steps t \<le> k_false" if "out = Inr (r, t)" for r t
  proof -
    obtain m' ts' te' ob' c' where r: "r = (m', ts', te', ob', c')" by (cases r) auto
    with that out have ret: "collect_rollouts fuel_end w = Some (Inr ((m', ts', te', ob', c'), t))"
      by simp
    note flag = returned_call_flag [OF ret]
    from flag at have "\<not> k_false < ts'" by blast
    moreover have "ts' = total_steps t"
      using collect_rollouts_returns [OF ret]
      by (auto simp: callback_stop_def elim: rollout_end_cases)
    ultimately show ?thesis by simp
  qed
  with out show "\<exists>out. collect_rollouts fuel_end w = Some out
           \<and> (\<forall>r t. out = Inr (r, t) \<longrightarrow> total_steps t \<le> k_false)"
    by blast
next
  assume ret: "collect_rollouts fuel w = Some (Inr ((m, ts, te, ob, c), s))"
  note flag = returned_call_flag [OF ret]
  from flag show "c \<longleftrightarrow> Callback CbFalse \<notin> set (trace s)" by blast
  from flag show "\<forall>k. 0 \<le> k \<and> k < ts \<longrightarrow> callback w k \<noteq> CbFalse" by blast
  from flag show "int (length (env_steps (trace s))) = ts" by blast
  assume "\<not> c"
  with flag show "callback w ts = CbFalse" by blast
  from flag \<open>\<not> c\<close> show "last (trace s) = Callback CbFalse" by blast
  from flag \<open>\<not> c\<close> show "(m, ts, te, ob) = (0, total_steps s, total_episodes s, None)" by blast
qed

theorem callback_false_stops_witness:
  "callback stop_setting (total_steps stop_final) = CbFalse
   \<and> inner (Suc 0) stop_setting stop_final
       = Some (Inr ((0, 2, 0, None, False), log_event (Callback CbFalse) stop_final))
   \<and> (0 :: int) \<le> 2 \<and> callback stop_setting 2 = CbFalse \<and> nat 2 < (3 :: nat)
   \<and> collect_rollouts 3 stop_setting = Some (Inr ((0, 2, 0, None, False), stop_final))
   \<and> collect_rollouts 10 stop_setting = Some (Inr ((0, 2, 0, None, False), stop_final))
   \<and> Callback CbFalse \<in> set (trace stop_final)
   \<and> callback stop_setting 0 = CbTrue \<and> callback stop_setting 1 = CbTrue
   \<and> env_steps (trace stop_final) = [[1], [1]]
   \<and> last (trace stop_final) = Callback CbFalse
   \<and> total_steps stop_final = 2 \<and> total_episodes stop_final = 0"
proof -
  have run: "collect_rollouts 10 stop_setting = Some (Inr ((0, 2, 0, None, False), stop_final))"
    by (simp add: model_defs stop_setting_def sde_setting_def base_setting_def stop_final_def
        eval_nat_numeral)
  have short: "collect_rollouts 3 stop_setting = Some (Inr ((0, 2, 0, None, False), stop_final))"
    by (simp add: model_defs stop_setting_def sde_setting_def base_setting_def stop_final_def
        eval_nat_numeral)
  have head: "callback stop_setting (total_steps stop_final) = CbFalse"
    by (simp add: stop_final_def stop_setting_def sde_setting_def base_setting_def)
  from callback_false_stops [where w = stop_setting and s_head = stop_final and fuel_head = 0
      and k_false = 2 and fuel_end = 3 and fuel = 10 and m = 0 and ts = 2 and te = 0
      and ob = None and c = False and s = stop_final] run short head
  show ?thesis
    by (simp add: stop_final_def stop_setting_def sde_setting_def base_setting_def)
qed

subsection \<open>What a stop skips\<close>

text \<open>
  Claim C10. Of a call that returns: when the callback has stopped it (a call of the
  callback returned \<open>False\<close>), \<^verbatim>\<open>callback.on_rollout_end()\<close> was not called, the
  observation in the tuple is \<open>None\<close>, and an accumulated snapshot has no returns and
  no advantage; otherwise \<^verbatim>\<open>on_rollout_end\<close> was called exactly once, the
  observation in the tuple is the last one, and a snapshot has both.
\<close>

theorem stop_skips_rollout_end:
  assumes "collect_rollouts fuel w = Some (Inr ((m, ts, te, ob, c), s))"
  shows "(Callback CbFalse \<in> set (trace s) \<longrightarrow>
            OnRolloutEnd \<notin> set (trace s) \<and> ob = None
            \<and> (\<forall>rd. rollout s = Some rd \<longrightarrow> returns rd = None \<and> advantage rd = None))
     \<and> (Callback CbFalse \<notin> set (trace s) \<longrightarrow>
            count_list (trace s) OnRolloutEnd = 1 \<and> ob = Some (cur_obs s)
            \<and> (\<forall>rd. rollout s = Some rd \<longrightarrow> returns rd \<noteq> None \<and> advantage rd \<noteq> None))"
proof -
  from collect_rollouts_returns [OF assms] show ?thesis
  proof (elim disjE exE conjE)
    fix s0 :: "('a, 'b) state"
    assume inv: "run_inv w s0" and "rollout_end w s0 = Inr ((m, ts, te, ob, c), s)"
    then obtain evs where "ob = Some (cur_obs s0)" "cur_obs s = cur_obs s0"
      "trace s = trace s0 @ evs @ [OnRolloutEnd]" "set evs \<subseteq> {VfNet (cur_obs s0)}"
      "\<forall>rd. rollout s = Some rd \<longrightarrow> returns rd \<noteq> None \<and> advantage rd \<noteq> None"
      by (auto elim: rollout_end_cases)
    moreover from this have "count_list evs OnRolloutEnd = 0" by (auto simp: count_list_0_iff)
    moreover have "count_list (trace s0) OnRolloutEnd = 0"
      using inv by (simp add: run_inv_def count_list_0_iff)
    ultimately show ?thesis using inv by (auto simp: run_inv_def)
  next
    fix s0 :: "('a, 'b) state"
    assume inv: "run_inv w s0" and "((m, ts, te, ob, c), s) = callback_stop s0"
    then show ?thesis by (auto simp: run_inv_def callback_stop_def)
  qed
qed

theorem stop_skips_rollout_end_witness:
  "collect_rollouts 10 stop_setting = Some (Inr ((0, 2, 0, None, False), stop_final))
   \<and> Callback CbFalse \<in> set (trace stop_final) \<and> OnRolloutEnd \<notin> set (trace stop_final)
   \<and> map_option returns (rollout stop_final) = Some None
   \<and> map_option advantage (rollout stop_final) = Some None
   \<and> collect_rollouts 10 sde_setting = Some (Inr ((3, 4, 1, Some 4, True), sde_final))
   \<and> Callback CbFalse \<notin> set (trace sde_final)
   \<and> count_list (trace sde_final) OnRolloutEnd = 1 \<and> cur_obs sde_final = 4
   \<and> map_option returns (rollout sde_final) = Some (Some [3 / 2, 1, 7 / 2, 5])
   \<and> map_option advantage (rollout sde_final) = Some (Some [3 / 2, 0, 3 / 2, 2])"
proof -
  have stop: "collect_rollouts 10 stop_setting = Some (Inr ((0, 2, 0, None, False), stop_final))"
    by (simp add: model_defs stop_setting_def sde_setting_def base_setting_def stop_final_def
        eval_nat_numeral)
  have run: "collect_rollouts 10 sde_setting = Some (Inr ((3, 4, 1, Some 4, True), sde_final))"
    by (simp add: model_defs sde_setting_def base_setting_def sde_final_def eval_nat_numeral)
  from stop_skips_rollout_end [OF stop] stop_skips_rollout_end [OF run] stop run
  show ?thesis
    by (simp add: stop_final_def sde_final_def)
qed

subsection \<open>Warm-up and policy queries\<close>

lemma action_queries_append [simp]:
  "action_queries (xs @ ys) = action_queries xs @ action_queries ys"
  by (induction xs rule: action_queries.induct) simp_all

lemma action_queries_action_events [simp]:
  "action_queries (action_events w s)
     = [if warmup w s then ActionSpaceSample else Predict (cur_obs s) (\<not> use_sde w)]"
  by (simp add: action_events_def split: option.splits)

lemma action_queries_empty:
  "\<forall>ev \<in> set evs. ev \<noteq> ActionSpaceSample \<and> (\<forall>ob d. ev \<noteq> Predict ob d) \<Longrightarrow> action_queries evs = []"
  by (induction evs rule: action_queries.induct) auto

lemma query_inv_start: "rollout_start w = Inr s \<Longrightarrow> query_inv w s"
  by (auto simp: rollout_start_def query_inv_def split: if_splits)

lemma query_inv_begin: "query_inv w s \<Longrightarrow> query_inv w (begin_episode s)"
  by (simp add: query_inv_def begin_episode_def)

lemma query_inv_step:
  assumes inv: "query_inv w s"
    and st: "step_body w (log_event (Callback c) s) = Inr s'"
  shows "query_inv w s'"
proof -
  let ?q = "if warmup w s then ActionSpaceSample else Predict (cur_obs s) (\<not> use_sde w)"
  have tr: "trace s' = trace s @ [Callback c] @ action_events w s
           @ [EnvStep (unscale_action (low w) (high w) (clipped_action w s))]
           @ (if rollout s \<noteq> None then [VfNet (cur_obs s)] else [])"
    using step_body_trace [OF st] by simp
  have q: "action_queries (trace s') = action_queries (trace s) @ [?q]"
    by (simp add: tr)
  have ts: "total_steps s' = total_steps s + 1"
    and nt: "cur_num_timesteps s' = cur_num_timesteps s + 1"
    using step_body_counters [OF st] by simp_all
  have len: "int (length (action_queries (trace s))) = total_steps s"
    and glob: "cur_num_timesteps s = num_timesteps w + total_steps s"
    using inv by (simp_all add: query_inv_def)
  have now: "warmup_at w (int (length (action_queries (trace s)))) = warmup w s"
    by (simp add: warmup_at_def warmup_def len glob)
  have each: "if warmup_at w (int k) then action_queries (trace s') ! k = ActionSpaceSample
        else \<exists>ob. action_queries (trace s') ! k = Predict ob (\<not> use_sde w)"
    if "k < length (action_queries (trace s'))" for k
  proof (cases "k < length (action_queries (trace s))")
    case True
    with inv show ?thesis by (simp add: q nth_append query_inv_def)
  next
    case False
    with that have "k = length (action_queries (trace s))" by (simp add: q)
    then show ?thesis using now by (simp add: q)
  qed
  have len': "int (length (action_queries (trace s'))) = total_steps s'"
    using len by (simp add: q ts)
  have glob': "cur_num_timesteps s' = num_timesteps w + total_steps s'"
    using glob by (simp add: ts nt)
  from each len' glob' show ?thesis unfolding query_inv_def by blast
qed

lemma query_inv_episode_end:
  assumes inv: "query_inv w s" and ee: "episode_end w s = Inr s'"
  shows "query_inv w s'"
proof -
  from ee obtain evs where tr: "trace s' = trace s @ evs"
    and evs: "set evs \<subseteq> {ActionNoiseReset, LogDump (episode_num w + total_episodes s + 1)}"
    and same: "total_steps s' = total_steps s"
    by (rule episode_end_cases)
  from ee have nt: "cur_num_timesteps s' = cur_num_timesteps s"
    by (auto simp: episode_end_def Let_def log_event_def split: if_splits option.splits)
  from evs have "action_queries evs = []" by (intro action_queries_empty) auto
  with inv tr same nt show ?thesis by (simp add: query_inv_def)
qed

text \<open>One step, from any state: its query is the one the warm-up test selects.\<close>

lemma step_body_query:
  assumes "step_body w s = Inr s'"
  shows "action_queries (trace s')
     = action_queries (trace s)
       @ [if cur_num_timesteps s < learning_starts w \<and> \<not> (use_sde w \<and> use_sde_at_warmup w)
          then ActionSpaceSample else Predict (cur_obs s) (\<not> use_sde w)]"
  using step_body_trace [OF assms] by (simp add: warmup_def)

text \<open>
  Claim C6. Of a call that returns: every step made exactly one query for its action.
  At step \<open>k\<close> the global step count is \<open>num_timesteps + k\<close>; when it is below
  \<open>learning_starts\<close> and it is not the case that \<open>use_sde\<close> and \<open>use_sde_at_warmup\<close>
  both hold, the query is \<^verbatim>\<open>action_space.sample()\<close> and the policy is not asked;
  otherwise it is \<^verbatim>\<open>predict\<close>, with \<open>deterministic\<close> set exactly when \<open>use_sde\<close> is
  off. (That the sample is uniform is the action space's matter.)
\<close>

theorem warmup_or_policy:
  assumes "collect_rollouts fuel w = Some (Inr ((m, ts, te, ob, c), s))"
  shows "int (length (action_queries (trace s))) = ts
     \<and> (\<forall>k < length (action_queries (trace s)).
          if num_timesteps w + int k < learning_starts w \<and> \<not> (use_sde w \<and> use_sde_at_warmup w)
          then action_queries (trace s) ! k = ActionSpaceSample
          else \<exists>ob. action_queries (trace s) ! k = Predict ob (\<not> use_sde w))"
proof -
  have "(\<exists>s0. query_inv w s0 \<and> \<not> (total_steps s0 < n_steps w \<or> total_episodes s0 < n_episodes w)
             \<and> rollout_end w s0 = Inr ((m, ts, te, ob, c), s))
     \<or> (\<exists>s0. query_inv w s0 \<and> callback w (total_steps s0) = CbFalse
             \<and> ((m, ts, te, ob, c), s) = callback_stop s0)"
    using query_inv_start query_inv_begin query_inv_step query_inv_episode_end assms
    by (rule collect_rollouts_outcome [where P = "query_inv w"])
  then show ?thesis
  proof (elim disjE exE conjE)
    fix s0 :: "('a, 'b) state"
    assume inv: "query_inv w s0" and "rollout_end w s0 = Inr ((m, ts, te, ob, c), s)"
    then obtain evs where "ts = total_steps s0"
      "trace s = trace s0 @ evs @ [OnRolloutEnd]" "set evs \<subseteq> {VfNet (cur_obs s0)}"
      by (auto elim: rollout_end_cases)
    moreover from this have "action_queries evs = []" by (intro action_queries_empty) auto
    ultimately show ?thesis using inv by (simp add: query_inv_def warmup_at_def)
  next
    fix s0 :: "('a, 'b) state"
    assume inv: "query_inv w s0" and "((m, ts, te, ob, c), s) = callback_stop s0"
    then show ?thesis by (simp add: query_inv_def warmup_at_def callback_stop_def)
  qed
qed

theorem warmup_or_policy_witness:
  "collect_rollouts 10 warm_setting = Some (Inr ((3, 3, 1, Some 3, True), warm_final))
   \<and> action_queries (trace warm_final) = [ActionSpaceSample, ActionSpaceSample, Predict 2 True]
   \<and> num_timesteps warm_setting + 1 < learning_starts warm_setting
   \<and> \<not> num_timesteps warm_setting + 2 < learning_starts warm_setting
   \<and> \<not> use_sde warm_setting"
proof -
  have run: "collect_rollouts 10 warm_setting = Some (Inr ((3, 3, 1, Some 3, True), warm_final))"
    by (simp add: model_defs warm_setting_def base_setting_def warm_final_def eval_nat_numeral)
  from warmup_or_policy [OF run] run show ?thesis
    by (simp add: warm_final_def warm_setting_def base_setting_def)
qed

subsection \<open>The replay buffer receives the unnormalized views\<close>

lemma trajectory_end_snoc:
  "trajectory_end w e ob (acts @ [a]) =
     (case trajectory_end w e ob acts of
        (e1, o1) \<Rightarrow> (case env_step w e1 (unscale_action (low w) (high w) a) of
                      (e', new_obs, reward, d, infos) \<Rightarrow> (e', new_obs)))"
  by (induction acts arbitrary: e ob) (auto split: prod.splits)

lemma original_transitions_snoc:
  "original_transitions w vn e (acts @ [a]) =
     original_transitions w vn e acts
     @ original_transitions w vn (fst (trajectory_end w e ob acts)) [a]"
  by (induction acts arbitrary: e ob) (auto split: prod.splits)

lemma raw_transitions_snoc:
  "raw_transitions w e ob (acts @ [a]) =
     raw_transitions w e ob acts
     @ (case trajectory_end w e ob acts of (e1, o1) \<Rightarrow> raw_transitions w e1 o1 [a])"
  by (induction acts arbitrary: e ob) (auto split: prod.splits)

lemma buffer_inv_start: "rollout_start w = Inr s \<Longrightarrow> buffer_inv w s"
  unfolding buffer_inv_def
  by (rule exI [of _ "[]"]) (auto simp: rollout_start_def split: if_splits option.splits)

lemma buffer_inv_begin: "buffer_inv w s \<Longrightarrow> buffer_inv w (begin_episode s)"
  by (simp add: buffer_inv_def begin_episode_def cong: option.case_cong)

lemma buffer_inv_step:
  assumes inv: "buffer_inv w s"
    and st: "step_body w (log_event (Callback c) s) = Inr s'"
  shows "buffer_inv w s'"
proof -
  let ?s1 = "log_event (Callback c) s"
  let ?a = "clipped_action w s"
  from inv obtain acts where
    traj: "trajectory_end w (env w) (obs w) acts = (cur_env s, cur_obs s)"
    and len: "int (length acts) = total_steps s"
    and app: "map (unscale_action (low w) (high w)) acts = env_steps (trace s)"
    and ou: "case vec_normalize_env w of None \<Rightarrow> True
            | Some vn \<Rightarrow> cur_obs_u s = Some (get_original_obs vn (cur_env s))"
    and buf: "case replay_buffer w of
              None \<Rightarrow> buffer s = None
            | Some b0 \<Rightarrow>
                (case vec_normalize_env w of
                   Some vn \<Rightarrow> buffer s = Some (b0 @ original_transitions w vn (env w) acts)
                 | None \<Rightarrow> buffer s = Some (b0 @ raw_transitions w (env w) (obs w) acts))"
    unfolding buffer_inv_def by blast
  from st obtain e' new_obs reward d infos buf' new_obs_u where
    env: "env_step w (cur_env s) (unscale_action (low w) (high w) ?a)
            = (e', new_obs, reward, d, infos)"
    and store: "store_transition w ?s1 e' new_obs reward d = Inr (buf', new_obs_u)"
    and fields: "cur_env s' = e'" "cur_obs s' = new_obs" "buffer s' = buf'"
      "cur_obs_u s' = (if vec_normalize_env w \<noteq> None then new_obs_u
                       else if buffer ?s1 \<noteq> None then Some (cur_obs ?s1) else cur_obs_u ?s1)"
      "vec_normalize_env w \<noteq> None \<longrightarrow> new_obs_u \<noteq> None"
    by (rule step_body_cases) simp_all
  have tr: "env_steps (trace s') = env_steps (trace s) @ [unscale_action (low w) (high w) ?a]"
    using step_body_trace [OF st] by simp
  have ts: "total_steps s' = total_steps s + 1"
    using step_body_counters(1) [OF st] by simp
  have 1: "trajectory_end w (env w) (obs w) (acts @ [?a]) = (cur_env s', cur_obs s')"
    by (simp add: trajectory_end_snoc traj env fields)
  have 2: "int (length (acts @ [?a])) = total_steps s'"
    using len ts by simp
  have 3: "map (unscale_action (low w) (high w)) (acts @ [?a]) = env_steps (trace s')"
    using app tr by simp
  have 4: "case vec_normalize_env w of None \<Rightarrow> True
            | Some vn \<Rightarrow> cur_obs_u s' = Some (get_original_obs vn (cur_env s'))"
    using store ou fields
    by (auto simp: store_transition_def split: option.splits)
  have 5: "case replay_buffer w of
              None \<Rightarrow> buffer s' = None
            | Some b0 \<Rightarrow>
                (case vec_normalize_env w of
                   Some vn \<Rightarrow> buffer s' = Some (b0 @ original_transitions w vn (env w) (acts @ [?a]))
                 | None \<Rightarrow> buffer s' = Some (b0 @ raw_transitions w (env w) (obs w) (acts @ [?a])))"
    using store ou buf fields(3) env
    by (auto simp: store_transition_def traj
        original_transitions_snoc [where ob = "obs w"] raw_transitions_snoc
        split: option.splits)
  from 1 2 3 4 5 show ?thesis unfolding buffer_inv_def by blast
qed

lemma buffer_inv_episode_end:
  assumes inv: "buffer_inv w s" and ee: "episode_end w s = Inr s'"
  shows "buffer_inv w s'"
proof -
  from ee obtain evs where tr: "trace s' = trace s @ evs"
    and evs: "set evs \<subseteq> {ActionNoiseReset, LogDump (episode_num w + total_episodes s + 1)}"
    and same: "total_steps s' = total_steps s" "buffer s' = buffer s" "cur_env s' = cur_env s"
      "cur_obs s' = cur_obs s" "cur_obs_u s' = cur_obs_u s"
    by (rule episode_end_cases)
  from evs have "env_steps evs = []" by (intro env_steps_empty) auto
  with inv tr same show ?thesis by (simp add: buffer_inv_def cong: option.case_cong)
qed

text \<open>
  One step, from any state with a buffer and a wrapper: the transition added holds
  the local \<^verbatim>\<open>obs_\<close> and the wrapper's views after the step, and \<^verbatim>\<open>obs_\<close> becomes
  the wrapper's original observation.
\<close>

lemma step_body_original_views:
  assumes "step_body w s = Inr s'" and "buffer s = Some b"
    and "vec_normalize_env w = Some vn" and "cur_obs_u s = Some o_u"
  shows "buffer s' = Some (b @ [\<lparr>t_obs = o_u, t_next_obs = get_original_obs vn (cur_env s'),
                                 t_action = clipped_action w s,
                                 t_reward = get_original_reward vn (cur_env s'),
                                 t_done = cur_done s'\<rparr>])"
    and "cur_obs_u s' = Some (get_original_obs vn (cur_env s'))"
proof -
  from assms(1) obtain e' new_obs reward d infos buf new_obs_u where
    store: "store_transition w s e' new_obs reward d = Inr (buf, new_obs_u)"
    and fields: "cur_env s' = e'" "cur_done s' = d" "buffer s' = buf"
      "cur_obs_u s' = (if vec_normalize_env w \<noteq> None then new_obs_u
                       else if buffer s \<noteq> None then Some (cur_obs s) else cur_obs_u s)"
    by (rule step_body_cases)
  from store assms(2-4) fields
  show "buffer s' = Some (b @ [\<lparr>t_obs = o_u, t_next_obs = get_original_obs vn (cur_env s'),
                                 t_action = clipped_action w s,
                                 t_reward = get_original_reward vn (cur_env s'),
                                 t_done = cur_done s'\<rparr>])"
    and "cur_obs_u s' = Some (get_original_obs vn (cur_env s'))"
    by (auto simp: store_transition_def)
qed

text \<open>
  With a wrapper and no buffer the local \<^verbatim>\<open>new_obs_\<close> is never bound, and the first
  step raises at \<^verbatim>\<open>obs_ = new_obs_\<close>.
\<close>

lemma wrapper_without_buffer_raises:
  "collect_rollouts 10 (norm_setting\<lparr>replay_buffer := None\<rparr>) = Some (Inl UnboundLocalError)"
  by (simp add: model_defs norm_setting_def doubling_def base_setting_def eval_nat_numeral)

text \<open>
  Claim C9. Of a call that returns, with \<open>acts\<close> the normalized actions whose
  unscaling \<^verbatim>\<open>env.step\<close> received, one per step: when a replay buffer was supplied
  and a normalization wrapper is active, what was added to the buffer is
  \<open>original_transitions\<close>, the wrapper's original observation, next observation and
  reward of every step; when no wrapper is active it is \<open>raw_transitions\<close>, the
  stepped values; when no buffer was supplied there is none afterwards.
\<close>

theorem buffer_gets_original_views:
  assumes "collect_rollouts fuel w = Some (Inr ((m, ts, te, ob, c), s))"
  shows "\<exists>acts. int (length acts) = ts
           \<and> map (unscale_action (low w) (high w)) acts = env_steps (trace s)
           \<and> (case replay_buffer w of
                 None \<Rightarrow> buffer s = None
               | Some b0 \<Rightarrow>
                   (case vec_normalize_env w of
                      Some vn \<Rightarrow> buffer s = Some (b0 @ original_transitions w vn (env w) acts)
                    | None \<Rightarrow> buffer s = Some (b0 @ raw_transitions w (env w) (obs w) acts)))"
proof -
  have "(\<exists>s0. buffer_inv w s0 \<and> \<not> (total_steps s0 < n_steps w \<or> total_episodes s0 < n_episodes w)
             \<and> rollout_end w s0 = Inr ((m, ts, te, ob, c), s))
     \<or> (\<exists>s0. buffer_inv w s0 \<and> callback w (total_steps s0) = CbFalse
             \<and> ((m, ts, te, ob, c), s) = callback_stop s0)"
    using buffer_inv_start buffer_inv_begin buffer_inv_step buffer_inv_episode_end assms
    by (rule collect_rollouts_outcome [where P = "buffer_inv w"])
  then show ?thesis
  proof (elim disjE exE conjE)
    fix s0 :: "('a, 'b) state"
    assume inv: "buffer_inv w s0" and "rollout_end w s0 = Inr ((m, ts, te, ob, c), s)"
    then obtain evs where fin: "ts = total_steps s0" "buffer s = buffer s0"
      "trace s = trace s0 @ evs @ [OnRolloutEnd]" "set evs \<subseteq> {VfNet (cur_obs s0)}"
      by (auto elim: rollout_end_cases)
    then have "env_steps evs = []" by (intro env_steps_empty) auto
    with fin inv show ?thesis unfolding buffer_inv_def by (auto split: option.splits)
  next
    fix s0 :: "('a, 'b) state"
    assume inv: "buffer_inv w s0" and "((m, ts, te, ob, c), s) = callback_stop s0"
    then show ?thesis unfolding buffer_inv_def
      by (auto simp: callback_stop_def split: option.splits)
  qed
qed

theorem buffer_gets_original_views_witness:
  "collect_rollouts 10 norm_setting = Some (Inr ((1, 3, 1, Some 3, True), norm_final))
   \<and> replay_buffer norm_setting = Some [] \<and> vec_normalize_env norm_setting = Some doubling
   \<and> env_steps (trace norm_final)
       = map (unscale_action (low norm_setting) (high norm_setting)) [[1 / 2], [1 / 2], [1 / 2]]
   \<and> buffer norm_final
       = Some (original_transitions norm_setting doubling (env norm_setting)
                 [[1 / 2], [1 / 2], [1 / 2]])
   \<and> map t_obs (original_transitions norm_setting doubling (env norm_setting)
                 [[1 / 2], [1 / 2], [1 / 2]]) = [0, 2, 4]
   \<and> map t_obs (raw_transitions norm_setting (env norm_setting) (obs norm_setting)
                 [[1 / 2], [1 / 2], [1 / 2]]) = [0, 1, 2]
   \<and> collect_rollouts 10 base_setting = Some (Inr ((1, 3, 1, Some 3, True), base_final))
   \<and> replay_buffer base_setting = Some [] \<and> vec_normalize_env base_setting = None
   \<and> buffer base_final
       = Some (raw_transitions base_setting (env base_setting) (obs base_setting)
                 [[1 / 2], [1 / 2], [1 / 2]])
   \<and> collect_rollouts 10 no_buffer_setting
       = Some (Inr ((1, 3, 1, Some 3, True), no_buffer_final))
   \<and> replay_buffer no_buffer_setting = None \<and> buffer no_buffer_final = None"
proof -
  have run: "collect_rollouts 10 norm_setting = Some (Inr ((1, 3, 1, Some 3, True), norm_final))"
    by (simp add: model_defs norm_setting_def doubling_def base_setting_def norm_final_def
        eval_nat_numeral)
  have raw: "collect_rollouts 10 base_setting = Some (Inr ((1, 3, 1, Some 3, True), base_final))"
    by (simp add: model_defs base_setting_def base_final_def eval_nat_numeral)
  have none: "collect_rollouts 10 no_buffer_setting
       = Some (Inr ((1, 3, 1, Some 3, True), no_buffer_final))"
    by (simp add: model_defs no_buffer_setting_def no_buffer_final_def base_setting_def
        base_final_def eval_nat_numeral)
  from buffer_gets_original_views [OF run] buffer_gets_original_views [OF raw]
    buffer_gets_original_views [OF none] run raw none
  show ?thesis
    by (simp add: norm_final_def norm_setting_def doubling_def base_setting_def base_final_def
        no_buffer_setting_def no_buffer_final_def unscale_action_def)
qed

subsection \<open>Which action is stored\<close>

lemma clip_range: "x \<in> set (clip a (- 1) 1) \<Longrightarrow> - 1 \<le> x \<and> x \<le> 1"
  by (auto simp: clip_def)

lemma clipped_action_range:
  assumes "use_sde w \<or> action_noise w \<noteq> None" and "x \<in> set (clipped_action w s)"
  shows "- 1 \<le> x \<and> x \<le> 1"
  using assms by (auto simp: clipped_action_def Let_def dest: clip_range split: option.splits)

lemma action_inv_start: "rollout_start w = Inr s \<Longrightarrow> action_inv w s"
  by (auto simp: rollout_start_def action_inv_def empty_rollout_data_def
      split: if_splits option.splits)

lemma action_inv_begin: "action_inv w s \<Longrightarrow> action_inv w (begin_episode s)"
  by (simp add: action_inv_def begin_episode_def cong: option.case_cong)

lemma action_inv_step:
  assumes inv: "action_inv w s"
    and st: "step_body w (log_event (Callback c) s) = Inr s'"
  shows "action_inv w s'"
proof -
  let ?s1 = "log_event (Callback c) s"
  let ?a = "clipped_action w s"
  have glob: "cur_num_timesteps s = num_timesteps w + total_steps s"
    using inv by (simp add: action_inv_def)
  from st obtain e' new_obs reward d infos buf' new_obs_u where
    store: "store_transition w ?s1 e' new_obs reward d = Inr (buf', new_obs_u)"
    and fields: "buffer s' = buf'" "rollout s' = append_rollout_data w ?s1 reward d"
    by (rule step_body_cases)
  have tr: "env_steps (trace s') = env_steps (trace s) @ [unscale_action (low w) (high w) ?a]"
    using step_body_trace [OF st] by simp
  have ts: "total_steps s' = total_steps s + 1"
    and nt: "cur_num_timesteps s' = cur_num_timesteps s + 1"
    using step_body_counters [OF st] by simp_all
  have 1: "cur_num_timesteps s' = num_timesteps w + total_steps s'"
    using glob ts nt by simp
  have 2: "case replay_buffer w of
           None \<Rightarrow> buffer s' = None
         | Some b0 \<Rightarrow>
             (\<exists>added. buffer s' = Some (b0 @ added)
                \<and> map (\<lambda>t. unscale_action (low w) (high w) (t_action t)) added
                    = env_steps (trace s')
                \<and> (use_sde w \<or> action_noise w \<noteq> None \<longrightarrow>
                     (\<forall>t \<in> set added. \<forall>x \<in> set (t_action t). - 1 \<le> x \<and> x \<le> 1)))"
  proof (cases "replay_buffer w")
    case None
    with inv have "buffer s = None" by (simp add: action_inv_def)
    with store None fields(1) show ?thesis by (simp add: store_transition_def)
  next
    case (Some b0)
    with inv obtain added where b: "buffer s = Some (b0 @ added)"
      and app: "map (\<lambda>t. unscale_action (low w) (high w) (t_action t)) added = env_steps (trace s)"
      and rng: "use_sde w \<or> action_noise w \<noteq> None \<longrightarrow>
                     (\<forall>t \<in> set added. \<forall>x \<in> set (t_action t). - 1 \<le> x \<and> x \<le> 1)"
      by (auto simp: action_inv_def)
    from store b obtain t where t: "buf' = Some (b0 @ added @ [t])" "t_action t = ?a"
      by (auto simp: store_transition_def split: option.splits)
    have "\<forall>x \<in> set (t_action t). - 1 \<le> x \<and> x \<le> 1" if "use_sde w \<or> action_noise w \<noteq> None"
      using clipped_action_range [OF that, of _ s] t(2) by simp
    with rng have "use_sde w \<or> action_noise w \<noteq> None \<longrightarrow>
                     (\<forall>u \<in> set (added @ [t]). \<forall>x \<in> set (t_action u). - 1 \<le> x \<and> x \<le> 1)"
      by auto
    moreover have "map (\<lambda>t. unscale_action (low w) (high w) (t_action t)) (added @ [t])
        = env_steps (trace s')"
      using app t(2) tr by simp
    moreover have "buffer s' = Some (b0 @ (added @ [t]))" using t(1) fields(1) by simp
    ultimately show ?thesis using Some by (simp del: append_assoc)
  qed
  have 3: "length (observations rd') = length (actions rd')
           \<and> int (length (actions rd')) = total_steps s'
           \<and> (\<forall>k < length (actions rd').
                 actions rd' ! k
                   = scale_action (low w) (high w) (raw_action w (int k) (observations rd' ! k)))"
    if rd': "rollout s' = Some rd'" for rd'
  proof -
    from rd' fields(2) obtain rd where rd: "rollout s = Some rd"
      and new: "observations rd' = observations rd @ [cur_obs s]"
        "actions rd' = actions rd @ [scaled_action w s]"
      by (auto simp: append_rollout_data_def split: option.splits)
    with inv have old: "length (observations rd) = length (actions rd)"
      "int (length (actions rd)) = total_steps s"
      "\<forall>k < length (actions rd).
                 actions rd ! k
                   = scale_action (low w) (high w) (raw_action w (int k) (observations rd ! k))"
      by (simp_all add: action_inv_def)
    have now: "scaled_action w s
        = scale_action (low w) (high w) (raw_action w (int (length (actions rd))) (cur_obs s))"
      using old(2) glob
      by (simp add: scaled_action_def unscaled_action_def raw_action_def warmup_at_def warmup_def)
    have "actions rd' ! k
            = scale_action (low w) (high w) (raw_action w (int k) (observations rd' ! k))"
      if "k < length (actions rd')" for k
    proof (cases "k < length (actions rd)")
      case True
      with old show ?thesis by (simp add: new nth_append)
    next
      case False
      with that have "k = length (actions rd)" by (simp add: new)
      with old(1) now show ?thesis by (simp add: new nth_append)
    qed
    with old(1,2) ts show ?thesis by (simp add: new)
  qed
  from 1 2 3 show ?thesis unfolding action_inv_def by blast
qed

lemma action_inv_episode_end:
  assumes inv: "action_inv w s" and ee: "episode_end w s = Inr s'"
  shows "action_inv w s'"
proof -
  from ee obtain evs where tr: "trace s' = trace s @ evs"
    and evs: "set evs \<subseteq> {ActionNoiseReset, LogDump (episode_num w + total_episodes s + 1)}"
    and same: "total_steps s' = total_steps s" "buffer s' = buffer s" "rollout s' = rollout s"
    by (rule episode_end_cases)
  from ee have nt: "cur_num_timesteps s' = cur_num_timesteps s"
    by (auto simp: episode_end_def Let_def log_event_def split: if_splits option.splits)
  from evs have "env_steps evs = []" by (intro env_steps_empty) auto
  with inv tr same nt show ?thesis by (simp add: action_inv_def cong: option.case_cong)
qed

text \<open>One step, from any state: what the environment, the buffer and the snapshot get.\<close>

lemma step_body_stores:
  assumes "step_body w s = Inr s'"
  shows "env_steps (trace s')
           = env_steps (trace s) @ [unscale_action (low w) (high w) (clipped_action w s)]"
    and "buffer s = Some b \<Longrightarrow> \<exists>t. buffer s' = Some (b @ [t]) \<and> t_action t = clipped_action w s"
    and "rollout s = Some rd \<Longrightarrow>
           \<exists>rd'. rollout s' = Some rd' \<and> actions rd' = actions rd @ [scaled_action w s]"
proof -
  show "env_steps (trace s')
           = env_steps (trace s) @ [unscale_action (low w) (high w) (clipped_action w s)]"
    using step_body_trace [OF assms] by simp
  from assms obtain e' new_obs reward d infos buf new_obs_u where
    store: "store_transition w s e' new_obs reward d = Inr (buf, new_obs_u)"
    and fields: "buffer s' = buf" "rollout s' = append_rollout_data w s reward d"
    by (rule step_body_cases)
  show "\<exists>t. buffer s' = Some (b @ [t]) \<and> t_action t = clipped_action w s" if "buffer s = Some b"
  proof -
    from that store obtain t where "buf = Some (b @ [t])" "t_action t = clipped_action w s"
      by (auto simp: store_transition_def split: option.splits)
    with fields(1) show ?thesis by blast
  qed
  show "\<exists>rd'. rollout s' = Some rd' \<and> actions rd' = actions rd @ [scaled_action w s]"
    if "rollout s = Some rd"
    using that fields(2) by (simp add: append_rollout_data_def)
qed

text \<open>
  Claim C2 says that the replay buffer and the snapshot both store the action applied
  to the environment, never the raw policy output. The snapshot does not: with
  state-dependent exploration and a policy output of \<open>[3]\<close> in the bounds \<open>[-1, 1]\<close>,
  the environment receives the unscaling of the clipped \<open>[1]\<close>, and the snapshot
  holds the unclipped \<open>[3]\<close>.
\<close>

theorem snapshot_action_counterexample:
  "collect_rollouts 10 sde_setting = Some (Inr ((3, 4, 1, Some 4, True), sde_final))
   \<and> env_steps (trace sde_final) = [[1], [1], [1], [1]]
   \<and> unscale_action (low sde_setting) (high sde_setting) [1] = [1]
   \<and> map_option (map t_action) (buffer sde_final) = Some [[1], [1], [1], [1]]
   \<and> map_option actions (rollout sde_final) = Some [[3], [3], [3], [3]]
   \<and> unscale_action (low sde_setting) (high sde_setting) [3] \<noteq> [1]"
  by (simp add: model_defs sde_setting_def base_setting_def sde_final_def eval_nat_numeral)

text \<open>
  Claim C2, amended. Of a call that returns: the replay buffer, when supplied, has
  received for every step the normalized action that was applied (the unscaling of
  the stored actions is what \<^verbatim>\<open>env.step\<close> received, in order, and under
  state-dependent exploration or external noise the stored actions lie in
  \<open>[-1, 1]\<close>); the snapshot holds for step \<open>k\<close> the scaling of the raw action of that
  step, before clipping and before external noise.
\<close>

theorem buffer_applied_snapshot_scaled:
  assumes "collect_rollouts fuel w = Some (Inr ((m, ts, te, ob, c), s))"
  shows "(case replay_buffer w of
            None \<Rightarrow> buffer s = None
          | Some b0 \<Rightarrow>
              (\<exists>added. buffer s = Some (b0 @ added)
                 \<and> map (\<lambda>t. unscale_action (low w) (high w) (t_action t)) added
                     = env_steps (trace s)
                 \<and> (use_sde w \<or> action_noise w \<noteq> None \<longrightarrow>
                      (\<forall>t \<in> set added. \<forall>x \<in> set (t_action t). - 1 \<le> x \<and> x \<le> 1))))
     \<and> (\<forall>rd. rollout s = Some rd \<longrightarrow>
           int (length (actions rd)) = ts
           \<and> (\<forall>k < length (actions rd).
                 actions rd ! k
                   = scale_action (low w) (high w) (raw_action w (int k) (observations rd ! k))))"
proof -
  have "(\<exists>s0. action_inv w s0 \<and> \<not> (total_steps s0 < n_steps w \<or> total_episodes s0 < n_episodes w)
             \<and> rollout_end w s0 = Inr ((m, ts, te, ob, c), s))
     \<or> (\<exists>s0. action_inv w s0 \<and> callback w (total_steps s0) = CbFalse
             \<and> ((m, ts, te, ob, c), s) = callback_stop s0)"
    using action_inv_start action_inv_begin action_inv_step action_inv_episode_end assms
    by (rule collect_rollouts_outcome [where P = "action_inv w"])
  then show ?thesis
  proof (elim disjE exE conjE)
    fix s0 :: "('a, 'b) state"
    assume inv: "action_inv w s0" and fin: "rollout_end w s0 = Inr ((m, ts, te, ob, c), s)"
    then obtain evs where same: "ts = total_steps s0" "buffer s = buffer s0"
      "trace s = trace s0 @ evs @ [OnRolloutEnd]" "set evs \<subseteq> {VfNet (cur_obs s0)}"
      by (auto elim: rollout_end_cases)
    then have "env_steps evs = []" by (intro env_steps_empty) auto
    with same have tr: "env_steps (trace s) = env_steps (trace s0)" by simp
    have snap: "\<exists>rd0. rollout s0 = Some rd0 \<and> actions rd = actions rd0
                    \<and> observations rd = observations rd0"
      if "rollout s = Some rd" for rd
      using that fin
      by (auto simp: rollout_end_def Let_def log_event_def post_processing_def
          split: option.splits sum.splits)
    have "int (length (actions rd)) = ts
           \<and> (\<forall>k < length (actions rd).
                 actions rd ! k
                   = scale_action (low w) (high w) (raw_action w (int k) (observations rd ! k)))"
      if "rollout s = Some rd" for rd
      using snap [OF that] inv same(1) by (auto simp: action_inv_def)
    moreover have "case replay_buffer w of
            None \<Rightarrow> buffer s = None
          | Some b0 \<Rightarrow>
              (\<exists>added. buffer s = Some (b0 @ added)
                 \<and> map (\<lambda>t. unscale_action (low w) (high w) (t_action t)) added
                     = env_steps (trace s)
                 \<and> (use_sde w \<or> action_noise w \<noteq> None \<longrightarrow>
                      (\<forall>t \<in> set added. \<forall>x \<in> set (t_action t). - 1 \<le> x \<and> x \<le> 1)))"
      using inv same(2) tr by (simp add: action_inv_def cong: option.case_cong)
    ultimately show ?thesis by blast
  next
    fix s0 :: "('a, 'b) state"
    assume inv: "action_inv w s0" and "((m, ts, te, ob, c), s) = callback_stop s0"
    then have "ts = total_steps s0" "buffer s = buffer s0" "rollout s = rollout s0"
      "env_steps (trace s) = env_steps (trace s0)"
      by (simp_all add: callback_stop_def)
    with inv show ?thesis by (simp add: action_inv_def cong: option.case_cong)
  qed
qed

theorem buffer_applied_snapshot_scaled_witness:
  "collect_rollouts 10 sde_setting = Some (Inr ((3, 4, 1, Some 4, True), sde_final))
   \<and> replay_buffer sde_setting = Some [] \<and> use_sde sde_setting
   \<and> map_option (map (\<lambda>t. unscale_action (low sde_setting) (high sde_setting) (t_action t)))
         (buffer sde_final) = Some (env_steps (trace sde_final))
   \<and> map_option (map t_action) (buffer sde_final) = Some [[1], [1], [1], [1]]
   \<and> map_option observations (rollout sde_final) = Some [0, 1, 2, 3]
   \<and> map_option actions (rollout sde_final)
       = Some (map (\<lambda>k. scale_action (low sde_setting) (high sde_setting)
                           (raw_action sde_setting (int k) k)) [0, 1, 2, 3])"
proof -
  have run: "collect_rollouts 10 sde_setting = Some (Inr ((3, 4, 1, Some 4, True), sde_final))"
    by (simp add: model_defs sde_setting_def base_setting_def sde_final_def eval_nat_numeral)
  from buffer_applied_snapshot_scaled [OF run] run show ?thesis
    by (simp add: sde_final_def sde_setting_def base_setting_def unscale_action_def
        scale_action_def raw_action_def warmup_at_def)
qed

subsection \<open>Noise resampling inside the loop\<close>

text \<open>
  Claim C3 says that inside the loop the noise is resampled exactly when
  \<open>sde_sample_freq > 0\<close> divides the running step count. The source tests the budget
  \<open>n_steps\<close>, which is fixed during the call, where its docstring says "every n
  steps". With a frequency of two and a budget of four steps the noise is resampled
  before every step, also before the second, whose running count is one; with a
  budget of three steps it is resampled at the rollout start only, though the
  frequency divides the running counts zero and two.
\<close>

theorem resample_tests_budget:
  "collect_rollouts 10 sde_setting = Some (Inr ((3, 4, 1, Some 4, True), sde_final))
   \<and> sde_sample_freq sde_setting = 2 \<and> n_steps sde_setting = 4
   \<and> take 12 (trace sde_final)
       = [ResetNoise, OnRolloutStart,
          Callback CbNone, ResetNoise, Predict 0 False, EnvStep [1], VfNet 0,
          Callback CbNone, ResetNoise, Predict 1 False, EnvStep [1], VfNet 1]
   \<and> count_list (trace sde_final) ResetNoise = 5
   \<and> collect_rollouts 10 odd_budget_setting
       = Some (Inr ((3, 3, 1, Some 3, True), odd_budget_final))
   \<and> sde_sample_freq odd_budget_setting = 2 \<and> n_steps odd_budget_setting = 3
   \<and> count_list (trace odd_budget_final) ResetNoise = 1
   \<and> length (action_queries (trace odd_budget_final)) = 3"
  by (simp add: model_defs odd_budget_setting_def sde_setting_def base_setting_def
      sde_final_def odd_budget_final_def eval_nat_numeral)

end
